theory Spec2Isabelle
  imports Main
begin

text \<open>
  The content script \<^verbatim>\<open>Content.js\<close> comes in two variants. The model follows the second one,
  the script with \<^verbatim>\<open>initialize\<close>, the spoiler class and the debounced observer; of the first
  variant it has the loader of the name list.
\<close>

section \<open>Strings as the content script sees them\<close>

text \<open>
  A JavaScript string is modelled as a \<^typ>\<open>string\<close>, one \<^typ>\<open>char\<close> per code unit: the
  strings of the model are those of code units up to U+00FF. On these the character
  classes and the case fold below are the script's own. A word character, for \<^verbatim>\<open>\b\<close> and
  \<^verbatim>\<open>\w\<close> in a regular expression without the \<^verbatim>\<open>u\<close> flag, is an ASCII letter, a digit or the
  underscore. White space, for \<^verbatim>\<open>\s\<close> and for \<^verbatim>\<open>trim()\<close>, is tab, LF, VT, FF, CR, space and
  the no-break space U+00A0. Under the \<^verbatim>\<open>i\<close> flag two code units are the same when
  \<^verbatim>\<open>toUpperCase\<close> gives them the same code unit: the letters a to z and the letters U+00E0 to
  U+00FE, but for the division sign U+00F7, fold to the code unit 32 below. The sharp s
  U+00DF (its upper case is two letters), the micro sign U+00B5 and y with diaeresis
  U+00FF (their upper case lies beyond U+00FF, and no other code unit up to U+00FF
  shares it) are the same as themselves only, and so they are left as they are.
\<close>

definition is_word_char :: "char \<Rightarrow> bool" where
  \<comment> \<open>\<^verbatim>\<open>\w\<close>: the letters, the digits and the underscore\<close>
  "is_word_char c =
     (c \<in> set ''abcdefghijklmnopqrstuvwxyzABCDEFGHIJKLMNOPQRSTUVWXYZ0123456789_'')"

definition is_space :: "char \<Rightarrow> bool" where
  \<comment> \<open>\<^verbatim>\<open>\s\<close>, and what \<^verbatim>\<open>trim()\<close> strips: tab, LF, VT, FF, CR, space, no-break space\<close>
  "is_space c =
     (c \<in> {CHR 0x09, CHR 0x0A, CHR 0x0B, CHR 0x0C, CHR 0x0D, CHR 0x20, CHR 0xA0})"

definition latin1_lower :: string where
  \<comment> \<open>U+00E0 to U+00FE without U+00F7\<close>
  "latin1_lower =
       [CHR 0xE0, CHR 0xE1, CHR 0xE2, CHR 0xE3, CHR 0xE4, CHR 0xE5, CHR 0xE6, CHR 0xE7,
        CHR 0xE8, CHR 0xE9, CHR 0xEA, CHR 0xEB, CHR 0xEC, CHR 0xED, CHR 0xEE, CHR 0xEF,
        CHR 0xF0, CHR 0xF1, CHR 0xF2, CHR 0xF3, CHR 0xF4, CHR 0xF5, CHR 0xF6, CHR 0xF8,
        CHR 0xF9, CHR 0xFA, CHR 0xFB, CHR 0xFC, CHR 0xFD, CHR 0xFE]"

definition latin1_upper :: string where
  \<comment> \<open>U+00C0 to U+00DE without U+00D7\<close>
  "latin1_upper =
       [CHR 0xC0, CHR 0xC1, CHR 0xC2, CHR 0xC3, CHR 0xC4, CHR 0xC5, CHR 0xC6, CHR 0xC7,
        CHR 0xC8, CHR 0xC9, CHR 0xCA, CHR 0xCB, CHR 0xCC, CHR 0xCD, CHR 0xCE, CHR 0xCF,
        CHR 0xD0, CHR 0xD1, CHR 0xD2, CHR 0xD3, CHR 0xD4, CHR 0xD5, CHR 0xD6, CHR 0xD8,
        CHR 0xD9, CHR 0xDA, CHR 0xDB, CHR 0xDC, CHR 0xDD, CHR 0xDE]"

definition toUpperCase :: "char \<Rightarrow> char" where
  \<comment> \<open>the canonical form two code units are compared in under the \<^verbatim>\<open>i\<close> flag\<close>
  "toUpperCase c =
     (case map_of (zip (''abcdefghijklmnopqrstuvwxyz'' @ latin1_lower)
                       (''ABCDEFGHIJKLMNOPQRSTUVWXYZ'' @ latin1_upper)) c of
        Some u \<Rightarrow> u
      | None \<Rightarrow> c)"

definition toLowerCase :: "char \<Rightarrow> char" where
  \<comment> \<open>\<^verbatim>\<open>String.prototype.toLowerCase\<close>, one code unit at a time\<close>
  "toLowerCase c =
     (case map_of (zip (''ABCDEFGHIJKLMNOPQRSTUVWXYZ'' @ latin1_upper)
                       (''abcdefghijklmnopqrstuvwxyz'' @ latin1_lower)) c of
        Some l \<Rightarrow> l
      | None \<Rightarrow> c)"

definition trim :: "string \<Rightarrow> string" where
  \<comment> \<open>\<^verbatim>\<open>String.prototype.trim\<close>\<close>
  "trim s = rev (dropWhile is_space (rev (dropWhile is_space s)))"


section \<open>The name list\<close>

text \<open>
  \<^verbatim>\<open>text.split(/\r?\n/)\<close>: the text is cut at every LF, and a CR standing directly before
  that LF belongs to the separator. A text with no LF is one piece, the empty text too.
\<close>

fun split_lines :: "string \<Rightarrow> string list" where
  "split_lines [] = [[]]"
| "split_lines [c] = (if c = CHR 0x0A then [[], []] else [[c]])"
| "split_lines (c # d # cs) =
     (if c = CHR 0x0D \<and> d = CHR 0x0A then [] # split_lines cs
      else if c = CHR 0x0A then [] # split_lines (d # cs)
      else (case split_lines (d # cs) of
              l # ls \<Rightarrow> (c # l) # ls
            | [] \<Rightarrow> [[c]]))"

definition load_names :: "string \<Rightarrow> string list" where
  \<comment> \<open>\<^verbatim>\<open>text.split(/\r?\n/).filter(Boolean).map(n => n.trim())\<close>: the empty pieces are
      dropped first, the pieces that are left are trimmed afterwards\<close>
  "load_names text = map trim (filter (\<lambda>l. l \<noteq> []) (split_lines text))"

definition load_names_v1 :: "string \<Rightarrow> string list" where
  \<comment> \<open>the first variant of the script: \<^verbatim>\<open>text.split(/\r?\n/).filter(Boolean)\<close>\<close>
  "load_names_v1 text = filter (\<lambda>l. l \<noteq> []) (split_lines text)"


section \<open>The matcher\<close>

text \<open>
  A compiled regular expression is modelled by what it finds at one position: the length
  of the match that starts at index \<open>i\<close> of the text, if the pattern matches there.
  With the \<^verbatim>\<open>g\<close> flag the object also carries \<^verbatim>\<open>lastIndex\<close>, the index the next
  \<^verbatim>\<open>exec\<close> or \<^verbatim>\<open>test\<close> starts from.
\<close>

type_synonym matcher = "string \<Rightarrow> nat \<Rightarrow> nat option"

record regexp =
  match_at :: matcher
  lastIndex :: nat

definition ci_eq :: "string \<Rightarrow> string \<Rightarrow> bool" where
  "ci_eq a b = (map toUpperCase a = map toUpperCase b)"

definition word_before :: "string \<Rightarrow> nat \<Rightarrow> bool" where
  \<comment> \<open>is the code unit left of index \<open>i\<close> a word character (there is none at the start)\<close>
  "word_before t i = (0 < i \<and> i \<le> length t \<and> is_word_char (t ! (i - 1)))"

definition word_at :: "string \<Rightarrow> nat \<Rightarrow> bool" where
  \<comment> \<open>is the code unit at index \<open>i\<close> a word character (there is none at the end)\<close>
  "word_at t i = (i < length t \<and> is_word_char (t ! i))"

definition word_boundary :: "string \<Rightarrow> nat \<Rightarrow> bool" where
  \<comment> \<open>the assertion \<^verbatim>\<open>\b\<close> at index \<open>i\<close>\<close>
  "word_boundary t i = (word_before t i \<noteq> word_at t i)"

text \<open>
  The pattern \<^verbatim>\<open>\b(?:n1|n2|...)\b\<close> that \<^verbatim>\<open>initialize\<close> builds from the name list, for
  names that contain no character with a meaning in a pattern: each name is a literal, the
  alternatives are tried in the order of the list, and an alternative counts only when
  the closing \<^verbatim>\<open>\b\<close> holds behind it; otherwise the engine backtracks into the next one.
  For a name with such a character the browser compiles another pattern, or throws; that
  is left to the browser (the field \<open>pattern_engine\<close> of a page), and \<open>literal_names\<close> says
  that a list has no such name.
\<close>

definition regex_meta :: "char \<Rightarrow> bool" where
  "regex_meta c = (c \<in> set (CHR 0x5C # ''^$.|?*+()[]{}''))"

definition literal_names :: "string list \<Rightarrow> bool" where
  "literal_names D = list_all (\<lambda>e. \<not> list_ex regex_meta e) D"

fun match_alts :: "string list \<Rightarrow> string \<Rightarrow> nat \<Rightarrow> nat option" where
  "match_alts [] t i = None"
| "match_alts (e # es) t i =
     (if ci_eq e (take (length e) (drop i t)) \<and> word_boundary t (i + length e)
      then Some (length e)
      else match_alts es t i)"

definition name_matcher :: "string list \<Rightarrow> matcher" where
  "name_matcher D t i = (if word_boundary t i then match_alts D t i else None)"

definition RegExp_new :: "string list \<Rightarrow> regexp" where
  \<comment> \<open>\<^verbatim>\<open>new RegExp(`\\b(?:${nameList.join("|")})\\b`, 'gi')\<close>\<close>
  "RegExp_new D = \<lparr>match_at = name_matcher D, lastIndex = 0\<rparr>"

text \<open>
  \<^verbatim>\<open>exec\<close> of a global expression: the search starts at \<^verbatim>\<open>lastIndex\<close> and moves right
  one index at a time; past the end of the text it fails. A failure resets
  \<^verbatim>\<open>lastIndex\<close> to 0, a success moves it behind the match.
\<close>

function exec_from :: "matcher \<Rightarrow> string \<Rightarrow> nat \<Rightarrow> (nat \<times> nat) option" where
  "exec_from m t i =
     (if length t < i then None
      else (case m t i of
              Some n \<Rightarrow> Some (i, n)
            | None \<Rightarrow> exec_from m t (Suc i)))"
  by pat_completeness auto
termination
  by (relation "measure (\<lambda>(m, t, i). Suc (length t) - i)") auto

declare exec_from.simps [simp del]

definition RegExp_exec :: "regexp \<Rightarrow> string \<Rightarrow> (nat \<times> nat) option \<times> regexp" where
  "RegExp_exec re t =
     (case exec_from (match_at re) t (lastIndex re) of
        None \<Rightarrow> (None, re\<lparr>lastIndex := 0\<rparr>)
      | Some (i, n) \<Rightarrow> (Some (i, n), re\<lparr>lastIndex := i + n\<rparr>))"

definition RegExp_test :: "regexp \<Rightarrow> string \<Rightarrow> bool \<times> regexp" where
  "RegExp_test re t = (case RegExp_exec re t of (r, re') \<Rightarrow> (r \<noteq> None, re'))"

text \<open>
  \<^verbatim>\<open>text.replace(re, wrap)\<close> for a global expression: \<^verbatim>\<open>lastIndex\<close> is set to 0, the
  matches are taken one \<^verbatim>\<open>exec\<close> after the other (an empty match moves \<^verbatim>\<open>lastIndex\<close> one
  further), and the result is put together from the text between the matches and from
  \<open>wrap\<close> of each matched substring. \<open>li\<close> is \<^verbatim>\<open>lastIndex\<close>, \<open>pos\<close> the index behind the
  last match that was put into the result.
\<close>

function replace_from :: "matcher \<Rightarrow> (string \<Rightarrow> string) \<Rightarrow> string \<Rightarrow> nat \<Rightarrow> nat \<Rightarrow> string" where
  "replace_from m wrap t li pos =
     (case exec_from m t li of
        None \<Rightarrow> drop pos t
      | Some (i, n) \<Rightarrow>
          (let matched = take n (drop i t);
               li' = (if matched = [] then i + n + 1 else i + n)
           in if pos \<le> i
              then take (i - pos) (drop pos t) @ wrap matched
                     @ replace_from m wrap t li' (i + length matched)
              else replace_from m wrap t li' pos))"
  by pat_completeness auto

lemma exec_from_bounds:
  "exec_from m t li = Some (i, n) \<Longrightarrow> li \<le> i \<and> i \<le> length t \<and> m t i = Some n"
proof (induction m t li rule: exec_from.induct)
  case (1 m t j)
  show ?case
  proof (cases "m t j")
    case None
    with "1.prems" have "\<not> length t < j" and "exec_from m t (Suc j) = Some (i, n)"
      by (auto simp: exec_from.simps [of m t j] split: if_splits)
    with "1.IH" None show ?thesis by fastforce
  next
    case (Some k)
    with "1.prems" show ?thesis
      by (auto simp: exec_from.simps [of m t j] split: if_splits)
  qed
qed

termination replace_from
proof (relation "measure (\<lambda>(m, wrap, t, li, pos). Suc (Suc (length t)) - li)", goal_cases)
  case 1
  show ?case by simp
next
  case (2 m wrap t li pos x2 i n matched li')
  then show ?case using exec_from_bounds [of m t li i n] by (auto split: if_splits)
next
  case (3 m wrap t li pos x2 i n matched li')
  then show ?case using exec_from_bounds [of m t li i n] by (auto split: if_splits)
qed

declare replace_from.simps [simp del]

definition String_replace :: "string \<Rightarrow> regexp \<Rightarrow> (string \<Rightarrow> string) \<Rightarrow> string \<times> regexp" where
  \<comment> \<open>the last \<^verbatim>\<open>exec\<close> of the loop fails and leaves \<^verbatim>\<open>lastIndex\<close> at 0\<close>
  "String_replace t re wrap = (replace_from (match_at re) wrap t 0 0, re\<lparr>lastIndex := 0\<rparr>)"


section \<open>The document\<close>

text \<open>
  A node of the document is a text node with its \<^verbatim>\<open>nodeValue\<close>, or an element with its
  \<^verbatim>\<open>nodeName\<close>, its \<^verbatim>\<open>classList\<close> and its child nodes.
\<close>

datatype node = Text string | Element string "string list" "node list"

definition SPOILER_CLASS :: string where
  "SPOILER_CLASS = ''gemini-spoiler-censor''"

definition spoiler_open :: string where
  "spoiler_open = ''<span class='' @ [CHR 0x22] @ SPOILER_CLASS @ [CHR 0x22] @ ''>''"

definition spoiler_span :: "string \<Rightarrow> string" where
  \<comment> \<open>\<^verbatim>\<open>(match) => `<span class="${SPOILER_CLASS}">${match}</span>`\<close>\<close>
  "spoiler_span matched = spoiler_open @ matched @ ''</span>''"

subsection \<open>Assigning \<^verbatim>\<open>innerHTML\<close>\<close>

text \<open>
  \<^verbatim>\<open>tempDiv.innerHTML = replacementHTML\<close> runs the browser's HTML parser over the string.
  The model covers this much of the parser, and answers \<open>None\<close> for markup beyond it:
  character data; the start tag the script writes and the end tag \<^verbatim>\<open></span>\<close>; the
  character references \<^verbatim>\<open>&amp;\<close>, \<^verbatim>\<open>&lt;\<close>, \<^verbatim>\<open>&gt;\<close> and \<^verbatim>\<open>&quot;\<close>; a \<^verbatim>\<open><\<close> that
  opens no tag and a \<^verbatim>\<open>&\<close> that opens no reference, which stay text; U+0000, which is
  dropped; and CR and CR LF, which the parser reads as LF.
\<close>

datatype token = Character char | StartTag string "string list" | EndTag string

definition starts_with :: "string \<Rightarrow> string \<Rightarrow> bool" where
  "starts_with p s = (take (length p) s = p)"

definition is_alpha :: "char \<Rightarrow> bool" where
  "is_alpha c = (c \<in> set ''abcdefghijklmnopqrstuvwxyzABCDEFGHIJKLMNOPQRSTUVWXYZ'')"

definition is_alnum :: "char \<Rightarrow> bool" where
  "is_alnum c = (is_alpha c \<or> c \<in> set ''0123456789'')"

definition opens_tag :: "string \<Rightarrow> bool" where
  \<comment> \<open>what stands behind a \<^verbatim>\<open><\<close> makes it markup: a letter, \<^verbatim>\<open>/\<close>, \<^verbatim>\<open>!\<close> or \<^verbatim>\<open>?\<close>\<close>
  "opens_tag cs = (case cs of [] \<Rightarrow> False | d # _ \<Rightarrow> is_alpha d \<or> d \<in> set ''/!?'')"

definition opens_reference :: "string \<Rightarrow> bool" where
  \<comment> \<open>what stands behind a \<^verbatim>\<open>&\<close> makes it a character reference: a letter, a digit or \<^verbatim>\<open>#\<close>\<close>
  "opens_reference cs = (case cs of [] \<Rightarrow> False | d # _ \<Rightarrow> is_alnum d \<or> d = CHR ''#'')"

definition emit :: "token \<Rightarrow> token list option \<Rightarrow> token list option" where
  "emit tk r = map_option (Cons tk) r"

fun tokenize :: "string \<Rightarrow> token list option" where
  "tokenize [] = Some []"
| "tokenize (c # cs) =
     (if c = CHR ''<'' then
        (if starts_with spoiler_open (c # cs)
         then emit (StartTag ''span'' [SPOILER_CLASS]) (tokenize (drop (length spoiler_open - 1) cs))
         else if starts_with ''</span>'' (c # cs) then emit (EndTag ''span'') (tokenize (drop 6 cs))
         else if opens_tag cs then None
         else emit (Character c) (tokenize cs))
      else if c = CHR ''&'' then
        (if starts_with ''amp;'' cs then emit (Character CHR ''&'') (tokenize (drop 4 cs))
         else if starts_with ''lt;'' cs then emit (Character CHR ''<'') (tokenize (drop 3 cs))
         else if starts_with ''gt;'' cs then emit (Character CHR ''>'') (tokenize (drop 3 cs))
         else if starts_with ''quot;'' cs then emit (Character (CHR 0x22)) (tokenize (drop 5 cs))
         else if opens_reference cs then None
         else emit (Character c) (tokenize cs))
      else if c = CHR 0x00 then tokenize cs
      else if c = CHR 0x0D then
        emit (Character (CHR 0x0A)) (tokenize (if starts_with [CHR 0x0A] cs then drop 1 cs else cs))
      else emit (Character c) (tokenize cs))"

text \<open>
  Tree construction inside the \<^verbatim>\<open>div\<close>: a character goes to the end of the text node that
  is the last child of the open element, or starts a new text node; a start tag opens an
  element; \<^verbatim>\<open></span>\<close> closes the innermost open \<^verbatim>\<open>span\<close> and is ignored when none is open;
  at the end of the input every element still open is closed. \<open>stk\<close> holds, for each open
  element, its class list and the children its parent has so far; \<open>cur\<close> are the children
  of the innermost open element.
\<close>

fun insert_character :: "char \<Rightarrow> node list \<Rightarrow> node list" where
  "insert_character c [] = [Text [c]]"
| "insert_character c [Text s] = [Text (s @ [c])]"
| "insert_character c [Element nm cls kids] = [Element nm cls kids, Text [c]]"
| "insert_character c (n # n' # ns) = n # insert_character c (n' # ns)"

fun close_all :: "(string list \<times> node list) list \<Rightarrow> node list \<Rightarrow> node list" where
  "close_all [] cur = cur"
| "close_all ((cls, before) # stk) cur = close_all stk (before @ [Element ''SPAN'' cls cur])"

fun build :: "(string list \<times> node list) list \<Rightarrow> node list \<Rightarrow> token list \<Rightarrow> node list" where
  "build stk cur [] = close_all stk cur"
| "build stk cur (Character c # ts) = build stk (insert_character c cur) ts"
| "build stk cur (StartTag nm cls # ts) = build ((cls, cur) # stk) [] ts"
| "build [] cur (EndTag nm # ts) = build [] cur ts"
| "build ((cls, before) # stk) cur (EndTag nm # ts) =
     build stk (before @ [Element ''SPAN'' cls cur]) ts"

definition innerHTML_set :: "string \<Rightarrow> node list option" where
  \<comment> \<open>the child nodes of \<^verbatim>\<open>tempDiv\<close> after the assignment\<close>
  "innerHTML_set html = map_option (build [] []) (tokenize html)"

subsection \<open>The tree walker\<close>

text \<open>
  \<^verbatim>\<open>createTreeWalker(document.body, NodeFilter.SHOW_TEXT, {acceptNode})\<close> visits the text
  nodes below the body in document order; elements are not shown, and the walk goes
  through them. A text node is known to the filter by its value and by the name and
  the class list of its parent; \<open>path\<close>, the child indices from the body down, says which
  node of the tree it is.
\<close>

record textnode =
  path :: "nat list"
  parent_nodeName :: string
  parent_classList :: "string list"
  nodeValue :: string

fun text_nodes_in :: "nat list \<Rightarrow> string \<Rightarrow> string list \<Rightarrow> nat \<Rightarrow> node list \<Rightarrow> textnode list" where
  "text_nodes_in p nm cls i [] = []"
| "text_nodes_in p nm cls i (Text s # ks) =
     \<lparr>path = p @ [i], parent_nodeName = nm, parent_classList = cls, nodeValue = s\<rparr>
       # text_nodes_in p nm cls (Suc i) ks"
| "text_nodes_in p nm cls i (Element nm' cls' kids # ks) =
     text_nodes_in (p @ [i]) nm' cls' 0 kids @ text_nodes_in p nm cls (Suc i) ks"

fun text_nodes :: "node \<Rightarrow> textnode list" where
  "text_nodes (Text s) = []"
| "text_nodes (Element nm cls kids) = text_nodes_in [] nm cls 0 kids"

definition acceptNode :: "regexp \<Rightarrow> textnode \<Rightarrow> bool \<times> regexp" where
  \<comment> \<open>\<open>True\<close> is \<^verbatim>\<open>FILTER_ACCEPT\<close>, \<open>False\<close> is \<^verbatim>\<open>FILTER_REJECT\<close>; the expression is returned
      with the \<^verbatim>\<open>lastIndex\<close> the call leaves\<close>
  "acceptNode re n =
     (let parentNodeName = map toLowerCase (parent_nodeName n) in
      if parentNodeName = ''script'' \<or> parentNodeName = ''style''
           \<or> parentNodeName = ''textarea'' \<or> parentNodeName = ''input''
           \<or> SPOILER_CLASS \<in> set (parent_classList n)
           \<or> \<not> list_ex (\<lambda>c. \<not> is_space c) (nodeValue n)
      then (False, re)
      else (case RegExp_test re (nodeValue n) of
              (False, re') \<Rightarrow> (False, re')
            | (True, re') \<Rightarrow> (True, re'\<lparr>lastIndex := 0\<rparr>)))"

fun first_accepted :: "regexp \<Rightarrow> textnode list \<Rightarrow> textnode option \<times> regexp" where
  "first_accepted re [] = (None, re)"
| "first_accepted re (n # ns) =
     (case acceptNode re n of
        (True, re') \<Rightarrow> (Some n, re')
      | (False, re') \<Rightarrow> first_accepted re' ns)"

text \<open>
  The walker's current node is the body before the first \<^verbatim>\<open>nextNode()\<close>, and the node
  it returned after that. The loop of \<^verbatim>\<open>censorNames\<close> removes the node the walker has just
  returned, and a tree walker, unlike a node iterator, is not moved when its current
  node leaves the tree: at every later call the current node is a text node with no
  child, no next sibling and no parent, so the search for the node that follows it in
  document order finds none, and \<^verbatim>\<open>nextNode()\<close> returns \<^verbatim>\<open>null\<close>. These are the two places
  the walker of this script is ever asked from.
\<close>

datatype cursor = AtRoot | Detached

fun nextNode :: "regexp \<Rightarrow> cursor \<Rightarrow> node \<Rightarrow> textnode option \<times> regexp" where
  "nextNode re AtRoot root = first_accepted re (text_nodes root)"
| "nextNode re Detached root = (None, re)"

text \<open>
  \<^verbatim>\<open>parent.insertBefore(...)\<close> for each node of the fragment, then
  \<^verbatim>\<open>parent.removeChild(node)\<close>: the fragment stands where the text node stood.
\<close>

fun replace_at :: "nat list \<Rightarrow> node list \<Rightarrow> node \<Rightarrow> node" where
  "replace_at [] frag n = n"
| "replace_at (i # p) frag (Text s) = Text s"
| "replace_at [i] frag (Element nm cls kids) =
     Element nm cls (take i kids @ frag @ drop (Suc i) kids)"
| "replace_at (i # j # p) frag (Element nm cls kids) =
     (if i < length kids
      then Element nm cls (kids[i := replace_at (j # p) frag (kids ! i)])
      else Element nm cls kids)"


section \<open>The censor\<close>

text \<open>
  The loop \<^verbatim>\<open>while (node = walker.nextNode()) { ... }\<close> of \<^verbatim>\<open>censorNames\<close>: the markup for
  the node is built by \<^verbatim>\<open>replace\<close>, parsed by \<^verbatim>\<open>innerHTML\<close>, and the nodes it makes take the
  place of the text node. \<open>k\<close> counts the text nodes replaced. The document is \<open>None\<close> once
  markup beyond the model's part of HTML has been parsed into it.
\<close>

function censor_loop :: "regexp \<Rightarrow> cursor \<Rightarrow> node \<Rightarrow> nat \<Rightarrow> node option \<times> nat \<times> regexp" where
  "censor_loop re cur root k =
     (case nextNode re cur root of
        (None, re1) \<Rightarrow> (Some root, k, re1)
      | (Some n, re1) \<Rightarrow>
          (case String_replace (nodeValue n) re1 spoiler_span of
             (replacementHTML, re2) \<Rightarrow>
               (case innerHTML_set replacementHTML of
                  None \<Rightarrow> (None, Suc k, re2)
                | Some frag \<Rightarrow> censor_loop re2 Detached (replace_at (path n) frag root) (Suc k))))"
  by pat_completeness auto
termination
proof (relation "measure (\<lambda>(re, cur, root, k). case cur of AtRoot \<Rightarrow> 1 | Detached \<Rightarrow> 0)", goal_cases)
  case 1
  show ?case by simp
next
  case 2
  then show ?case by (auto split: cursor.splits)
qed

declare censor_loop.simps [simp del]


section \<open>The page\<close>

text \<open>
  The state of one page and its content script: the script's variables \<^verbatim>\<open>nameRegex\<close> and
  \<^verbatim>\<open>isEnabled\<close> and the \<^verbatim>\<open>timer\<close> variable of the debounced function; the body of the
  document; and what the browser holds for the script: the clock, the timeouts that are
  set (handle and due time, in the order they were set), the next free handle, the
  number of mutation observers observing the body, the number of \<^verbatim>\<open>fetch\<close> promises not
  yet settled, whether the style element is in the head, the number of click listeners,
  the number of reloads requested, and the browser's \<^verbatim>\<open>RegExp\<close> constructor on the patterns the
  matcher of this model does not cover: for a name list with a character that has a
  meaning in a pattern, \<open>pattern_engine\<close> gives the matcher of the compiled pattern, or
  \<open>None\<close> where the constructor throws a \<^verbatim>\<open>SyntaxError\<close>. \<open>pass_log\<close> and \<open>replaced\<close> record the
  run: the clock at each call of \<^verbatim>\<open>censorNames\<close>, and the number of text nodes replaced.
\<close>

record page =
  nameRegex :: "regexp option"
  isEnabled :: bool
  timer :: "nat option"
  body :: "node option"
  now :: nat
  timeouts :: "(nat \<times> nat) list"
  next_handle :: nat
  observers :: nat
  fetching :: nat
  style_injected :: bool
  click_listeners :: nat
  reloads :: nat
  pattern_engine :: "string list \<Rightarrow> matcher option"
  pass_log :: "nat list"
  replaced :: nat

definition censorNames :: "page \<Rightarrow> page" where
  "censorNames st =
     (let st1 = st\<lparr>pass_log := pass_log st @ [now st]\<rparr> in
      if \<not> isEnabled st1 then st1
      else (case nameRegex st1 of
              None \<Rightarrow> st1
            | Some re \<Rightarrow>
                (case body st1 of
                   None \<Rightarrow> st1
                 | Some root \<Rightarrow>
                     (case censor_loop re AtRoot root 0 of
                        (root', k, re') \<Rightarrow>
                          st1\<lparr>body := root', nameRegex := Some re',
                              replaced := replaced st1 + k\<rparr>))))"

subsection \<open>The debounced censor and the observer\<close>

definition clearTimeout :: "nat option \<Rightarrow> page \<Rightarrow> page" where
  \<comment> \<open>an undefined handle, or the handle of a timeout that has run, clears nothing\<close>
  "clearTimeout h st = st\<lparr>timeouts := filter (\<lambda>(h', due). Some h' \<noteq> h) (timeouts st)\<rparr>"

definition setTimeout :: "nat \<Rightarrow> page \<Rightarrow> nat \<times> page" where
  "setTimeout delay st =
     (next_handle st,
      st\<lparr>timeouts := timeouts st @ [(next_handle st, now st + delay)],
         next_handle := Suc (next_handle st)\<rparr>)"

definition debouncedCensorNames :: "page \<Rightarrow> page" where
  \<comment> \<open>\<^verbatim>\<open>debounce(censorNames, 300)\<close>: \<^verbatim>\<open>clearTimeout(timer); timer = setTimeout(..., 300)\<close>\<close>
  "debouncedCensorNames st =
     (case setTimeout 300 (clearTimeout (timer st) st) of
        (h, st') \<Rightarrow> st'\<lparr>timer := Some h\<rparr>)"

definition mutation_callback :: "page \<Rightarrow> page" where
  \<comment> \<open>the callback of the observer: \<^verbatim>\<open>if (!isEnabled) return; debouncedCensorNames();\<close>\<close>
  "mutation_callback st = (if \<not> isEnabled st then st else debouncedCensorNames st)"

definition observeDOMChanges :: "page \<Rightarrow> page" where
  \<comment> \<open>a new observer is made and set to observe the body at every call\<close>
  "observeDOMChanges st = st\<lparr>observers := Suc (observers st)\<rparr>"

text \<open>
  The observers observe the body with \<^verbatim>\<open>childList\<close> and \<^verbatim>\<open>subtree\<close>, so they are notified
  of the script's own \<^verbatim>\<open>insertBefore\<close> and \<^verbatim>\<open>removeChild\<close> too. The browser delivers the
  notification when the callback that made the changes has returned, to every observer
  that observed the body when they were made: \<open>before\<close> is the page when the callback
  began. A callback has changed the body exactly when it has replaced a text node.
\<close>

definition after_task :: "page \<Rightarrow> page \<Rightarrow> page" where
  "after_task before st =
     (if replaced st = replaced before then st
      else (mutation_callback ^^ observers before) st)"

definition task :: "(page \<Rightarrow> page) \<Rightarrow> page \<Rightarrow> page" where
  \<comment> \<open>one callback of the script, run by the browser\<close>
  "task callback st = after_task st (callback st)"

definition run_timers :: "nat \<Rightarrow> page \<Rightarrow> page" where
  \<comment> \<open>the clock reaches \<open>t\<close>: every timeout due by then runs its callback, \<^verbatim>\<open>censorNames\<close>\<close>
  "run_timers t st =
     fold (\<lambda>_. task censorNames) (filter (\<lambda>(h, due). due \<le> t) (timeouts st))
       (st\<lparr>now := t, timeouts := filter (\<lambda>(h, due). \<not> due \<le> t) (timeouts st)\<rparr>)"

subsection \<open>Start-up and the toggle\<close>

definition injectSpoilerStyles :: "page \<Rightarrow> page" where
  "injectSpoilerStyles st = (if style_injected st then st else st\<lparr>style_injected := True\<rparr>)"

definition addRevealClickListener :: "page \<Rightarrow> page" where
  "addRevealClickListener st = st\<lparr>click_listeners := Suc (click_listeners st)\<rparr>"

definition initialize :: "page \<Rightarrow> page" where
  \<comment> \<open>the styles, the click listener, and the \<^verbatim>\<open>fetch\<close> of the name list is under way\<close>
  "initialize st =
     (let st1 = addRevealClickListener (injectSpoilerStyles st)
      in st1\<lparr>fetching := Suc (fetching st1)\<rparr>)"

definition compile_names :: "page \<Rightarrow> string list \<Rightarrow> regexp option" where
  \<comment> \<open>\<^verbatim>\<open>new RegExp(...)\<close> on the page: \<open>None\<close> where it throws\<close>
  "compile_names st nameList =
     (if literal_names nameList then Some (RegExp_new nameList)
      else map_option (\<lambda>m. \<lparr>match_at = m, lastIndex = 0\<rparr>) (pattern_engine st nameList))"

definition names_loaded :: "string \<Rightarrow> page \<Rightarrow> page" where
  \<comment> \<open>the handler of the fetched text in \<^verbatim>\<open>initialize\<close>; when the constructor throws, the
      \<^verbatim>\<open>catch\<close> handler logs the error, and neither the pass nor the observer is reached\<close>
  "names_loaded text st =
     (let nameList = load_names text in
      if nameList = [] then st
      else (case compile_names st nameList of
              None \<Rightarrow> st
            | Some re \<Rightarrow> observeDOMChanges (censorNames (st\<lparr>nameRegex := Some re\<rparr>))))"

record storage_change =
  newValue :: bool

definition onChanged :: "storage_change option \<Rightarrow> page \<Rightarrow> page" where
  \<comment> \<open>the listener of \<^verbatim>\<open>chrome.storage.onChanged\<close>; the argument is \<^verbatim>\<open>changes.enabled\<close>\<close>
  "onChanged enabled st =
     (case enabled of
        None \<Rightarrow> st
      | Some c \<Rightarrow>
          (let st1 = st\<lparr>isEnabled := newValue c\<rparr> in
           if isEnabled st1 then censorNames st1
           else st1\<lparr>reloads := Suc (reloads st1)\<rparr>))"

subsection \<open>Events\<close>

text \<open>
  What happens to a page after the script has started, one event at a time: the clock
  reaches a time \<open>t\<close>; the browser reports to every observer a batch of mutations that
  the page has made; the fetch ends, with the text of the name list or with a failure,
  if one is under way; the storage reports a change. The handlers of the script run as
  tasks, so the observers are notified of what a handler has changed.
\<close>

datatype event =
    Tick nat
  | Mutations
  | FetchOk string
  | FetchFailed
  | StorageChanged "storage_change option"

fun step :: "event \<Rightarrow> page \<Rightarrow> page" where
  "step (Tick t) st = run_timers t st"
| "step Mutations st = (mutation_callback ^^ observers st) st"
| "step (FetchOk text) st =
     (if fetching st = 0 then st
      else task (names_loaded text) (st\<lparr>fetching := fetching st - 1\<rparr>))"
| "step FetchFailed st =
     (if fetching st = 0 then st else st\<lparr>fetching := fetching st - 1\<rparr>)"
| "step (StorageChanged c) st = task (onChanged c) st"

definition run :: "event list \<Rightarrow> page \<Rightarrow> page" where
  "run evs st = fold step evs st"

definition fresh_page :: "node \<Rightarrow> page" where
  \<comment> \<open>the page before the script runs: the variables as the script declares them, nothing
      set up, the clock at 0, in a browser that refuses every pattern the model does not
      cover; for another browser the field \<open>pattern_engine\<close> is set\<close>
  "fresh_page root =
     \<lparr>nameRegex = None, isEnabled = True, timer = None, body = Some root, now = 0,
      timeouts = [], next_handle = 0, observers = 0, fetching = 0,
      style_injected = False, click_listeners = 0, reloads = 0,
      pattern_engine = (\<lambda>nameList. None), pass_log = [], replaced = 0\<rparr>"

definition script_start :: "node \<Rightarrow> page" where
  \<comment> \<open>the page when the script has run to its end, with its one call \<^verbatim>\<open>initialize()\<close>\<close>
  "script_start root = initialize (fresh_page root)"


section \<open>What the claims speak of\<close>

text \<open>
  A whole-word occurrence, in the words of the specification: the entry stands in the
  text at index \<open>i\<close>, letter case aside, and is bounded on each side by a non-word
  character or by an end of the text.
\<close>

definition whole_word_occurrence :: "string \<Rightarrow> string \<Rightarrow> nat \<Rightarrow> bool" where
  "whole_word_occurrence e t i =
     (i + length e \<le> length t \<and> ci_eq e (take (length e) (drop i t))
      \<and> \<not> word_before t i \<and> \<not> word_at t (i + length e))"

definition word_edged :: "string list \<Rightarrow> bool" where
  \<comment> \<open>every name is non-empty and begins and ends with a word character\<close>
  "word_edged D =
     list_all (\<lambda>e. e \<noteq> [] \<and> is_word_char (hd e) \<and> is_word_char (last e)) D"

text \<open>
  The text a node shows, and the characters of a text that the HTML parser reads as
  they are: all but \<^verbatim>\<open><\<close>, \<^verbatim>\<open>&\<close>, U+0000 and CR.
\<close>

fun textContent :: "node \<Rightarrow> string" where
  "textContent (Text s) = s"
| "textContent (Element nm cls kids) = concat (map textContent kids)"

definition plain_char :: "char \<Rightarrow> bool" where
  "plain_char c =
     (c \<noteq> CHR ''<'' \<and> c \<noteq> CHR ''&'' \<and> c \<noteq> CHR 0x00 \<and> c \<noteq> CHR 0x0D)"

fun characters :: "token list \<Rightarrow> string" where
  "characters [] = []"
| "characters (Character c # ts) = c # characters ts"
| "characters (StartTag nm cls # ts) = characters ts"
| "characters (EndTag nm # ts) = characters ts"

fun open_text :: "(string list \<times> node list) list \<Rightarrow> string" where
  \<comment> \<open>the text already built in front of the innermost open element\<close>
  "open_text [] = []"
| "open_text ((cls, before) # stk) = open_text stk @ concat (map textContent before)"

definition contains_match :: "regexp \<Rightarrow> string \<Rightarrow> bool" where
  \<comment> \<open>a search of the whole text finds a match\<close>
  "contains_match re t = (exec_from (match_at re) t 0 \<noteq> None)"

text \<open>
  The nodes the parser makes of a run of characters, and what a list of nodes looks like
  when none of its text nodes can be accepted by the filter again: a text node at the
  top has no match, and an element carries the spoiler class and has only text nodes
  as children.
\<close>

definition as_text :: "string \<Rightarrow> node list" where
  "as_text a = (if a = [] then [] else [Text a])"

fun closed :: "node list \<Rightarrow> bool" where
  \<comment> \<open>the list does not end with a text node: the next character starts a new one\<close>
  "closed [] = True"
| "closed [Text s] = False"
| "closed [Element nm cls kids] = True"
| "closed (n # n' # ns) = closed (n' # ns)"

fun is_Text :: "node \<Rightarrow> bool" where
  "is_Text (Text s) = True"
| "is_Text (Element nm cls kids) = False"

fun inert_frag :: "string list \<Rightarrow> node list \<Rightarrow> bool" where
  "inert_frag D [] = True"
| "inert_frag D (Text s # ns) = (\<not> contains_match (RegExp_new D) s \<and> inert_frag D ns)"
| "inert_frag D (Element nm cls kids # ns) =
     (SPOILER_CLASS \<in> set cls \<and> list_all is_Text kids \<and> inert_frag D ns)"

text \<open>
  A burst of mutation notifications at the times \<open>ts\<close>: the clock reaches each time and
  the observers are notified. In a burst every notification comes less than 300 ms after
  the one before it.
\<close>

fun within_window :: "nat list \<Rightarrow> bool" where
  "within_window [] = True"
| "within_window [t] = True"
| "within_window (t # u # ts) = (t \<le> u \<and> u < t + 300 \<and> within_window (u # ts))"

definition burst :: "nat list \<Rightarrow> event list" where
  "burst ts = concat (map (\<lambda>t. [Tick t, Mutations]) ts)"

definition one_pending :: "page \<Rightarrow> nat \<Rightarrow> bool" where
  \<comment> \<open>exactly one timeout is set, due at \<open>due\<close>, and \<^verbatim>\<open>timer\<close> holds its handle\<close>
  "one_pending st due = (\<exists>h. timeouts st = [(h, due)] \<and> timer st = Some h)"

definition rearmed :: "page \<Rightarrow> nat \<Rightarrow> nat \<Rightarrow> page" where
  \<comment> \<open>the page when the debounced function has been called at \<open>t\<close> and its timeout, the
      only one that is set, has the handle \<open>h\<close>\<close>
  "rearmed st t h =
     st\<lparr>now := t, timer := Some h, timeouts := [(h, t + 300)], next_handle := Suc h\<rparr>"


section \<open>The matcher and whole words\<close>

lemma fold_pairs_same_class:
  "list_all (\<lambda>(c, u). is_word_char u = is_word_char c)
     (zip (''abcdefghijklmnopqrstuvwxyz'' @ latin1_lower)
          (''ABCDEFGHIJKLMNOPQRSTUVWXYZ'' @ latin1_upper))"
  by code_simp

lemma is_word_char_toUpperCase: "is_word_char (toUpperCase c) = is_word_char c"
proof (cases "map_of (zip (''abcdefghijklmnopqrstuvwxyz'' @ latin1_lower)
                          (''ABCDEFGHIJKLMNOPQRSTUVWXYZ'' @ latin1_upper)) c")
  case None
  then show ?thesis by (simp add: toUpperCase_def)
next
  case (Some u)
  then have "(c, u) \<in> set (zip (''abcdefghijklmnopqrstuvwxyz'' @ latin1_lower)
                                (''ABCDEFGHIJKLMNOPQRSTUVWXYZ'' @ latin1_upper))"
    by (rule map_of_SomeD)
  with fold_pairs_same_class have "is_word_char u = is_word_char c"
    unfolding list_all_iff by blast
  with Some show ?thesis by (simp add: toUpperCase_def)
qed

lemma same_case_same_class:
  "toUpperCase a = toUpperCase b \<Longrightarrow> is_word_char a = is_word_char b"
  by (metis is_word_char_toUpperCase)

lemma ci_eq_nth:
  assumes "ci_eq e (take (length e) (drop i t))" and "k < length e"
  shows "i + k < length t \<and> toUpperCase (e ! k) = toUpperCase (t ! (i + k))"
proof -
  from assms(1) have eq: "map toUpperCase e = map toUpperCase (take (length e) (drop i t))"
    by (simp add: ci_eq_def)
  then have "length e = length (take (length e) (drop i t))"
    by (metis length_map)
  then have len: "length e \<le> length t - i" by simp
  with assms(2) have lt: "i + k < length t" by simp
  from eq assms(2) have "map toUpperCase e ! k = map toUpperCase (take (length e) (drop i t)) ! k"
    by simp
  with assms(2) len lt have "toUpperCase (e ! k) = toUpperCase (t ! (i + k))"
    by simp
  with lt show ?thesis by simp
qed

lemma occurrence_edges:
  assumes "ci_eq e (take (length e) (drop i t))" and "e \<noteq> []"
    and "is_word_char (hd e)" and "is_word_char (last e)"
  shows "i + length e \<le> length t" and "word_at t i" and "word_before t (i + length e)"
proof -
  from assms(2) have pos: "0 < length e" by simp
  from ci_eq_nth [OF assms(1), of 0] pos
  have first: "i < length t" "toUpperCase (e ! 0) = toUpperCase (t ! i)" by simp_all
  from pos have "length e - 1 < length e" by simp
  from ci_eq_nth [OF assms(1) this]
  have lst: "i + (length e - 1) < length t"
    "toUpperCase (e ! (length e - 1)) = toUpperCase (t ! (i + (length e - 1)))" by blast+
  from lst(1) pos show "i + length e \<le> length t" by simp
  from assms(2,3) have "is_word_char (e ! 0)" by (simp add: hd_conv_nth)
  with first(2) have "is_word_char (t ! i)" using same_case_same_class by blast
  with first(1) show "word_at t i" by (simp add: word_at_def)
  from assms(2,4) have "is_word_char (e ! (length e - 1))" by (simp add: last_conv_nth)
  with lst(2) have "is_word_char (t ! (i + (length e - 1)))" using same_case_same_class by blast
  moreover from assms(2) have "i + length e - 1 = i + (length e - 1)" by (cases e) simp_all
  ultimately show "word_before t (i + length e)"
    using lst(1) pos by (simp add: word_before_def)
qed

lemma match_alts_Some:
  "match_alts D t i = Some n \<Longrightarrow>
     \<exists>e\<in>set D. length e = n \<and> ci_eq e (take (length e) (drop i t))
       \<and> word_boundary t (i + length e)"
  by (induction D) (auto split: if_splits)

lemma match_alts_None:
  "match_alts D t i = None \<Longrightarrow> e \<in> set D \<Longrightarrow>
     \<not> (ci_eq e (take (length e) (drop i t)) \<and> word_boundary t (i + length e))"
  by (induction D) (auto split: if_splits)

lemma name_matcher_sound:
  assumes "word_edged D" and "name_matcher D t i = Some n"
  shows "\<exists>e\<in>set D. length e = n \<and> whole_word_occurrence e t i"
proof -
  from assms(2) have b: "word_boundary t i" and m: "match_alts D t i = Some n"
    by (auto simp: name_matcher_def split: if_splits)
  from match_alts_Some [OF m] obtain e where e: "e \<in> set D" "length e = n"
    "ci_eq e (take (length e) (drop i t))" "word_boundary t (i + length e)" by blast
  from assms(1) e(1) have w: "e \<noteq> []" "is_word_char (hd e)" "is_word_char (last e)"
    by (auto simp: word_edged_def list_all_iff)
  note ed = occurrence_edges [OF e(3) w]
  from b ed(2) have "\<not> word_before t i" by (simp add: word_boundary_def)
  moreover from e(4) ed(3) have "\<not> word_at t (i + length e)" by (simp add: word_boundary_def)
  ultimately have "whole_word_occurrence e t i"
    using ed(1) e(3) by (simp add: whole_word_occurrence_def)
  with e(1,2) show ?thesis by blast
qed

lemma name_matcher_complete:
  assumes "word_edged D" and "e \<in> set D" and "whole_word_occurrence e t i"
  shows "name_matcher D t i \<noteq> None"
proof -
  from assms(1,2) have w: "e \<noteq> []" "is_word_char (hd e)" "is_word_char (last e)"
    by (auto simp: word_edged_def list_all_iff)
  from assms(3) have o: "ci_eq e (take (length e) (drop i t))" "\<not> word_before t i"
    "\<not> word_at t (i + length e)" by (simp_all add: whole_word_occurrence_def)
  note ed = occurrence_edges [OF o(1) w]
  from o(2) ed(2) have b: "word_boundary t i" by (simp add: word_boundary_def)
  from o(3) ed(3) have "word_boundary t (i + length e)" by (simp add: word_boundary_def)
  with o(1) assms(2) have "match_alts D t i \<noteq> None" using match_alts_None by blast
  with b show ?thesis by (simp add: name_matcher_def)
qed

lemma exec_from_None_iff:
  "exec_from m t li = None \<longleftrightarrow> (\<forall>i. li \<le> i \<and> i \<le> length t \<longrightarrow> m t i = None)"
proof (induction m t li rule: exec_from.induct)
  case (1 m t j)
  show ?case
  proof (cases "length t < j")
    case True
    then show ?thesis by (auto simp: exec_from.simps [of m t j])
  next
    case False
    show ?thesis
    proof (cases "m t j")
      case None
      have "(\<forall>i. j \<le> i \<and> i \<le> length t \<longrightarrow> m t i = None)
              = (\<forall>i. Suc j \<le> i \<and> i \<le> length t \<longrightarrow> m t i = None)"
        using None by (metis Suc_leI le_neq_implies_less Suc_leD)
      with "1.IH" [OF False None] False None show ?thesis
        by (simp add: exec_from.simps [of m t j])
    next
      case (Some n)
      with False show ?thesis by (auto simp: exec_from.simps [of m t j])
    qed
  qed
qed

lemma exec_from_None_later:
  "exec_from m t 0 = None \<Longrightarrow> exec_from m t li = None"
  by (simp add: exec_from_None_iff)

lemma RegExp_test_new:
  "fst (RegExp_test (RegExp_new D) t) = (\<exists>i. i \<le> length t \<and> name_matcher D t i \<noteq> None)"
proof -
  have "fst (RegExp_test (RegExp_new D) t) = (exec_from (name_matcher D) t 0 \<noteq> None)"
    by (auto simp: RegExp_test_def RegExp_exec_def RegExp_new_def split: option.splits)
  then show ?thesis by (auto simp: exec_from_None_iff)
qed

lemma test_whole_words:
  assumes "word_edged D"
  shows "fst (RegExp_test (RegExp_new D) t) = (\<exists>i. \<exists>e\<in>set D. whole_word_occurrence e t i)"
proof
  assume "fst (RegExp_test (RegExp_new D) t)"
  then obtain i n where "name_matcher D t i = Some n" by (auto simp: RegExp_test_new)
  from name_matcher_sound [OF assms this] show "\<exists>i. \<exists>e\<in>set D. whole_word_occurrence e t i"
    by blast
next
  assume "\<exists>i. \<exists>e\<in>set D. whole_word_occurrence e t i"
  then obtain i e where e: "e \<in> set D" "whole_word_occurrence e t i" by blast
  from e(2) have "i \<le> length t" by (simp add: whole_word_occurrence_def)
  with name_matcher_complete [OF assms e] show "fst (RegExp_test (RegExp_new D) t)"
    by (auto simp: RegExp_test_new)
qed

text \<open>
  Claim C1, as amended. For a name list whose names hold no character with a meaning in
  a pattern, are non-empty, and begin and end with a word character, and for every text,
  names and text of code units up to U+00FF: the compiled pattern matches at an index
  exactly when a name of the list occurs there as a whole word, letter case aside,
  bounded on each side by a non-word character or an end of the text, and the match has
  the length of such a name; \<^verbatim>\<open>test\<close> says whether the text has such an occurrence. Letter
  case is that of the \<^verbatim>\<open>i\<close> flag: the fold of the letters a to z and of the letters U+00E0
  to U+00FE. \<^verbatim>\<open>Anderson\<close> has no match for \<^verbatim>\<open>Anders\<close>, \<^verbatim>\<open>Anders works here\<close> has one, and
  \<^verbatim>\<open>Alice\<close> matches \<^verbatim>\<open>alice\<close>, \<^verbatim>\<open>ALICE\<close> and \<^verbatim>\<open>AlIcE\<close>.
\<close>

theorem name_matcher_whole_words:
  assumes "literal_names D" and "word_edged D"
  shows "(case name_matcher D t i of
            None \<Rightarrow> \<not> (\<exists>e\<in>set D. whole_word_occurrence e t i)
          | Some n \<Rightarrow> (\<exists>e\<in>set D. length e = n \<and> whole_word_occurrence e t i))
       \<and> fst (RegExp_test (RegExp_new D) t) = (\<exists>i. \<exists>e\<in>set D. whole_word_occurrence e t i)
       \<and> \<not> fst (RegExp_test (RegExp_new [''Anders'']) ''Anderson'')
       \<and> fst (RegExp_test (RegExp_new [''Anders'']) ''Anders works here'')
       \<and> fst (RegExp_test (RegExp_new [''Alice'']) ''alice'')
       \<and> fst (RegExp_test (RegExp_new [''Alice'']) ''ALICE'')
       \<and> fst (RegExp_test (RegExp_new [''Alice'']) ''AlIcE'')"
proof -
  have at: "(case name_matcher D t i of
               None \<Rightarrow> \<not> (\<exists>e\<in>set D. whole_word_occurrence e t i)
             | Some n \<Rightarrow> (\<exists>e\<in>set D. length e = n \<and> whole_word_occurrence e t i))"
  proof (cases "name_matcher D t i")
    case None
    have "\<not> (\<exists>e\<in>set D. whole_word_occurrence e t i)"
    proof
      assume "\<exists>e\<in>set D. whole_word_occurrence e t i"
      then obtain e where "e \<in> set D" and "whole_word_occurrence e t i" by blast
      from name_matcher_complete [OF assms(2) this] None show False by simp
    qed
    with None show ?thesis by simp
  next
    case (Some n)
    with name_matcher_sound [OF assms(2) Some] show ?thesis by simp
  qed
  have ex1: "\<not> fst (RegExp_test (RegExp_new [''Anders'']) ''Anderson'')" by code_simp
  have ex2: "fst (RegExp_test (RegExp_new [''Anders'']) ''Anders works here'')" by code_simp
  have ex3: "fst (RegExp_test (RegExp_new [''Alice'']) ''alice'')" by code_simp
  have ex4: "fst (RegExp_test (RegExp_new [''Alice'']) ''ALICE'')" by code_simp
  have ex5: "fst (RegExp_test (RegExp_new [''Alice'']) ''AlIcE'')" by code_simp
  from at test_whole_words [OF assms(2)] ex1 ex2 ex3 ex4 ex5 show ?thesis by simp
qed

theorem name_matcher_whole_words_witness:
  "literal_names [''Anders''] \<and> word_edged [''Anders'']
   \<and> name_matcher [''Anders''] ''Anders works here'' 0 = Some 6
   \<and> (\<exists>e\<in>set [''Anders'']. length e = 6 \<and> whole_word_occurrence e ''Anders works here'' 0)
   \<and> literal_names [''Ren'' @ [CHR 0xE9] @ ''e''] \<and> word_edged [''Ren'' @ [CHR 0xE9] @ ''e'']
   \<and> name_matcher [''Ren'' @ [CHR 0xE9] @ ''e''] (''REN'' @ [CHR 0xC9] @ ''E'') 0 = Some 5
   \<and> whole_word_occurrence (''Ren'' @ [CHR 0xE9] @ ''e'') (''REN'' @ [CHR 0xC9] @ ''E'') 0"
proof -
  have l: "literal_names [''Anders'']" by code_simp
  have w: "word_edged [''Anders'']" by code_simp
  have m: "name_matcher [''Anders''] ''Anders works here'' 0 = Some 6" by code_simp
  have l2: "literal_names [''Ren'' @ [CHR 0xE9] @ ''e'']" by code_simp
  have w2: "word_edged [''Ren'' @ [CHR 0xE9] @ ''e'']" by code_simp
  have m2: "name_matcher [''Ren'' @ [CHR 0xE9] @ ''e''] (''REN'' @ [CHR 0xC9] @ ''E'') 0 = Some 5"
    by code_simp
  from name_matcher_whole_words [OF l w, of "''Anders works here''" 0]
    name_matcher_whole_words [OF l2 w2, of "''REN'' @ [CHR 0xC9] @ ''E''" 0] m l w m2 l2 w2
  show ?thesis by simp
qed

text \<open>
  The claim as it is written, for every name list without such characters, fails for a
  name that ends with a non-word character, such as a name list with a comma behind each
  name. In \<^verbatim>\<open>Alice, Bob\<close> the name \<^verbatim>\<open>Alice,\<close> stands as a whole word, and the pattern does
  not match: behind the comma stands a space, and \<^verbatim>\<open>\b\<close> holds only between a word
  character and a non-word character. In \<^verbatim>\<open>Alice,Bob\<close> the pattern matches \<^verbatim>\<open>Alice,\<close>,
  which is followed there by a letter. The same holds for a name that ends with a letter
  outside ASCII, which is no word character for \<^verbatim>\<open>\b\<close>: the last conjuncts are the name
  \<^verbatim>\<open>Jos\<close> followed by the code unit 0xE9, e with an acute accent.
\<close>

theorem trailing_comma_counterexample:
  "literal_names [''Alice,'']
   \<and> whole_word_occurrence ''Alice,'' ''Alice, Bob'' 0
   \<and> name_matcher [''Alice,''] ''Alice, Bob'' 0 = None
   \<and> \<not> fst (RegExp_test (RegExp_new [''Alice,'']) ''Alice, Bob'')
   \<and> name_matcher [''Alice,''] ''Alice,Bob'' 0 = Some 6
   \<and> \<not> whole_word_occurrence ''Alice,'' ''Alice,Bob'' 0
   \<and> literal_names [''Jos'' @ [CHR 0xE9]]
   \<and> whole_word_occurrence (''Jos'' @ [CHR 0xE9]) (''Jos'' @ [CHR 0xE9] @ '' sings'') 0
   \<and> \<not> fst (RegExp_test (RegExp_new [''Jos'' @ [CHR 0xE9]]) (''Jos'' @ [CHR 0xE9] @ '' sings''))"
  by code_simp


section \<open>Replacing matches\<close>

lemma take_drop_split:
  "take n (drop i t) @ drop (i + length (take n (drop i t))) t = drop i t"
proof -
  have "drop (i + length (take n (drop i t))) t = drop (length (take n (drop i t))) (drop i t)"
    by (simp add: add.commute)
  also have "\<dots> = drop n (drop i t)"
    by (cases "n \<le> length (drop i t)") (simp_all add: min_def)
  finally show ?thesis by (metis append_take_drop_id)
qed

lemma take_between_drop:
  "pos \<le> i \<Longrightarrow> take (i - pos) (drop pos t) @ drop i t = drop pos t"
proof -
  assume "pos \<le> i"
  then have "drop i t = drop (i - pos) (drop pos t)" by simp
  then show ?thesis by (metis append_take_drop_id)
qed

lemma replace_from_identity:
  "pos \<le> li \<Longrightarrow> replace_from m (\<lambda>matched. matched) t li pos = drop pos t"
proof (induction m "\<lambda>matched::string. matched" t li pos rule: replace_from.induct)
  case (1 m t li pos)
  show ?case
  proof (cases "exec_from m t li")
    case None
    then show ?thesis by (subst replace_from.simps) simp
  next
    case (Some r)
    obtain i n where r: "r = (i, n)" by (cases r)
    from Some r have b: "li \<le> i" "i \<le> length t" using exec_from_bounds by blast+
    define matched where "matched = take n (drop i t)"
    define li' where "li' = (if matched = [] then i + n + 1 else i + n)"
    have le: "pos \<le> i" using "1.prems" b by simp
    have "i + length matched \<le> li'" by (simp add: li'_def matched_def)
    then have ih: "replace_from m (\<lambda>matched. matched) t li' (i + length matched)
                     = drop (i + length matched) t"
      using "1.hyps"(1) [OF Some r [symmetric] matched_def li'_def le] by simp
    have "replace_from m (\<lambda>matched. matched) t li pos =
            take (i - pos) (drop pos t) @ matched
              @ replace_from m (\<lambda>matched. matched) t li' (i + length matched)"
      using Some r le by (subst replace_from.simps) (simp add: matched_def li'_def Let_def)
    also have "\<dots> = take (i - pos) (drop pos t) @ drop i t"
      using ih take_drop_split [of n i t] by (simp add: matched_def)
    also have "\<dots> = drop pos t" using le by (rule take_between_drop)
    finally show ?thesis .
  qed
qed

text \<open>
  Claim C4. For every text and every compiled expression, whatever the name list it was
  built from, \<^verbatim>\<open>replace\<close> with a wrap function that returns the matched substring
  unchanged gives back exactly the text (and leaves \<^verbatim>\<open>lastIndex\<close> at 0).
\<close>

theorem replace_identity:
  "String_replace t re (\<lambda>matched. matched) = (t, re\<lparr>lastIndex := 0\<rparr>)"
  by (simp add: String_replace_def replace_from_identity)

theorem replace_identity_witness:
  "String_replace ''Anders works here'' (RegExp_new [''Anders'']) (\<lambda>matched. matched)
     = (''Anders works here'', (RegExp_new [''Anders''])\<lparr>lastIndex := 0\<rparr>)"
  by (rule replace_identity)


section \<open>Loading the name list\<close>

text \<open>
  Claim C6. The claim says that every entry handed to the matcher is non-empty and
  trimmed, also for a line of white space only. The script drops the empty lines before
  it trims: a line of three spaces is not empty, passes the filter, and is then trimmed
  to the empty name, which stays in the list.
\<close>

theorem load_names_blank_line:
  "load_names ''Alice\<newline>   \<newline>Bob'' = [''Alice'', [], ''Bob'']
   \<and> load_names_v1 ''Alice\<newline>   \<newline>Bob'' = [''Alice'', ''   '', ''Bob'']"
  by (simp add: load_names_def load_names_v1_def trim_def is_space_def)

text \<open>What does hold: every name of the list is trimmed.\<close>

lemma trim_edges:
  "trim s = [] \<or> (\<not> is_space (hd (trim s)) \<and> \<not> is_space (last (trim s)))"
proof (cases "trim s = []")
  case True
  then show ?thesis by simp
next
  case False
  define u where "u = dropWhile is_space s"
  define v where "v = dropWhile is_space (rev u)"
  have t: "trim s = rev v" by (simp add: trim_def u_def v_def)
  with False have v: "v \<noteq> []" by simp
  then have "\<not> is_space (hd v)" unfolding v_def by (rule hd_dropWhile)
  with v t have l: "\<not> is_space (last (trim s))" by (simp add: last_rev)
  from v have "last v = last (rev u)"
    unfolding v_def by (metis last_appendR takeWhile_dropWhile_id)
  moreover from v have "u \<noteq> []" by (auto simp: v_def)
  ultimately have "last v = hd u" by (simp add: last_rev)
  moreover from \<open>u \<noteq> []\<close> have "\<not> is_space (hd u)" unfolding u_def by (rule hd_dropWhile)
  ultimately have "\<not> is_space (hd (trim s))" using v t by (simp add: hd_rev)
  with l show ?thesis by simp
qed

lemma load_names_trimmed:
  "e \<in> set (load_names names) \<Longrightarrow>
     e = [] \<or> (\<not> is_space (hd e) \<and> \<not> is_space (last e))"
  using trim_edges by (auto simp: load_names_def)


section \<open>The censor pass\<close>

lemma acceptNode_match_at: "match_at (snd (acceptNode re n)) = match_at re"
  by (auto simp: acceptNode_def RegExp_test_def RegExp_exec_def Let_def
      split: option.splits prod.splits bool.splits)

lemma acceptNode_rejects_no_match:
  assumes "\<not> contains_match re (nodeValue n)"
  shows "fst (acceptNode re n) = False"
proof -
  from assms have "exec_from (match_at re) (nodeValue n) 0 = None"
    unfolding contains_match_def by blast
  then have "exec_from (match_at re) (nodeValue n) (lastIndex re) = None"
    by (rule exec_from_None_later)
  then show ?thesis
    by (simp add: acceptNode_def RegExp_test_def RegExp_exec_def Let_def)
qed

lemma acceptNode_rejects_spoiler:
  "SPOILER_CLASS \<in> set (parent_classList n) \<Longrightarrow> acceptNode re n = (False, re)"
  by (simp add: acceptNode_def Let_def)

lemma first_accepted_no_match:
  "\<forall>n\<in>set ns. \<not> contains_match re (nodeValue n) \<Longrightarrow> fst (first_accepted re ns) = None"
proof (induction ns arbitrary: re)
  case Nil
  then show ?case by simp
next
  case (Cons n ns)
  obtain b re' where a: "acceptNode re n = (b, re')" by (cases "acceptNode re n")
  from Cons.prems have "fst (acceptNode re n) = False"
    by (simp add: acceptNode_rejects_no_match)
  with a have b: "b = False" by simp
  from a have "match_at re' = match_at re" using acceptNode_match_at [of re n] by simp
  then have "\<forall>m\<in>set ns. \<not> contains_match re' (nodeValue m)"
    using Cons.prems by (simp add: contains_match_def)
  from Cons.IH [OF this] a b show ?case by simp
qed

lemma censor_loop_no_match:
  assumes "\<forall>n\<in>set (text_nodes root). \<not> contains_match re (nodeValue n)"
  shows "\<exists>re'. censor_loop re AtRoot root k = (Some root, k, re')"
proof -
  obtain r re' where n: "nextNode re AtRoot root = (r, re')" by (cases "nextNode re AtRoot root")
  from first_accepted_no_match [OF assms] n have "r = None" by simp
  with n show ?thesis by (simp add: censor_loop.simps [of re AtRoot root k])
qed

lemma censorNames_frame:
  "pass_log (censorNames st) = pass_log st @ [now st]"
  "reloads (censorNames st) = reloads st"
  "isEnabled (censorNames st) = isEnabled st"
  "observers (censorNames st) = observers st"
  "fetching (censorNames st) = fetching st"
  "timeouts (censorNames st) = timeouts st"
  "timer (censorNames st) = timer st"
  "now (censorNames st) = now st"
  "next_handle (censorNames st) = next_handle st"
  by (simp_all add: censorNames_def Let_def split: option.splits prod.splits)

lemma censorNames_body_cong:
  assumes "isEnabled a = isEnabled b" and "nameRegex a = nameRegex b" and "body a = body b"
  shows "body (censorNames a) = body (censorNames b)"
  using assms by (simp add: censorNames_def Let_def split: option.splits prod.splits)

lemma censorNames_inert:
  "nameRegex st = None \<or> \<not> isEnabled st \<Longrightarrow>
     censorNames st = st\<lparr>pass_log := pass_log st @ [now st]\<rparr>"
  by (auto simp: censorNames_def Let_def)

lemma task_censorNames_inert:
  "nameRegex st = None \<or> \<not> isEnabled st \<Longrightarrow>
     task censorNames st = st\<lparr>pass_log := pass_log st @ [now st]\<rparr>"
  by (simp add: task_def after_task_def censorNames_inert)

lemma fold_censorNames_inert:
  "nameRegex st = None \<or> \<not> isEnabled st \<Longrightarrow>
     body (fold (\<lambda>_. task censorNames) xs st) = body st
     \<and> replaced (fold (\<lambda>_. task censorNames) xs st) = replaced st
     \<and> nameRegex (fold (\<lambda>_. task censorNames) xs st) = nameRegex st"
proof (induction xs arbitrary: st)
  case Nil
  then show ?case by simp
next
  case (Cons x xs)
  let ?s = "st\<lparr>pass_log := pass_log st @ [now st]\<rparr>"
  from Cons.prems have c: "task censorNames st = ?s" by (rule task_censorNames_inert)
  from Cons.prems have "nameRegex ?s = None \<or> \<not> isEnabled ?s" by simp
  from Cons.IH [OF this] c show ?case by simp
qed

lemma funpow_mutation_callback_body:
  "body ((mutation_callback ^^ k) st) = body st
   \<and> replaced ((mutation_callback ^^ k) st) = replaced st"
  by (induction k)
     (simp_all add: mutation_callback_def debouncedCensorNames_def setTimeout_def clearTimeout_def)

lemma censor_loop_Detached: "censor_loop re Detached root k = (Some root, k, re)"
  by (simp add: censor_loop.simps [of re Detached root k])

lemma pass_replaces_at_most_one:
  "fst (snd (censor_loop re AtRoot root k)) \<le> Suc k"
  by (simp add: censor_loop.simps [of re AtRoot root k] censor_loop_Detached
      split: prod.splits option.splits)

lemma censorNames_replaces_at_most_one:
  "replaced (censorNames st) \<le> Suc (replaced st)"
proof -
  have "k \<le> Suc 0" if "censor_loop re AtRoot root 0 = (b, k, re')" for re root b k re'
    using pass_replaces_at_most_one [of re root 0] that by simp
  then show ?thesis
    by (auto simp: censorNames_def Let_def split: option.splits prod.splits)
qed

subsection \<open>The nodes that replace a text node\<close>

lemma insert_character_text:
  "concat (map textContent (insert_character c ns)) = concat (map textContent ns) @ [c]"
  by (induction c ns rule: insert_character.induct) simp_all

lemma close_all_text:
  "concat (map textContent (close_all stk cur)) = open_text stk @ concat (map textContent cur)"
  by (induction stk cur rule: close_all.induct) simp_all

lemma build_text:
  "concat (map textContent (build stk cur ts))
     = open_text stk @ concat (map textContent cur) @ characters ts"
  by (induction stk cur ts rule: build.induct) (simp_all add: insert_character_text close_all_text)

lemma tokenize_plain:
  "list_all plain_char a \<Longrightarrow> tokenize r = Some ts \<Longrightarrow>
     tokenize (a @ r) = Some (map Character a @ ts)"
  by (induction a) (simp_all add: plain_char_def emit_def)

lemma tokenize_open:
  "tokenize r = Some ts \<Longrightarrow>
     tokenize (spoiler_open @ r) = Some (StartTag ''span'' [SPOILER_CLASS] # ts)"
  by (simp add: spoiler_open_def SPOILER_CLASS_def starts_with_def emit_def)

lemma tokenize_close:
  "tokenize r = Some ts \<Longrightarrow> tokenize (''</span>'' @ r) = Some (EndTag ''span'' # ts)"
  by (simp add: spoiler_open_def SPOILER_CLASS_def starts_with_def emit_def)

lemma tokenize_span:
  assumes "list_all plain_char a" and "list_all plain_char m" and "tokenize r = Some ts"
  shows "\<exists>ts'. tokenize (a @ spoiler_span m @ r) = Some ts'
           \<and> characters ts' = a @ m @ characters ts"
proof -
  from tokenize_close [OF assms(3)]
  have "tokenize (''</span>'' @ r) = Some (EndTag ''span'' # ts)" .
  from tokenize_plain [OF assms(2) this]
  have "tokenize (m @ ''</span>'' @ r) = Some (map Character m @ EndTag ''span'' # ts)" .
  from tokenize_open [OF this]
  have "tokenize (spoiler_open @ m @ ''</span>'' @ r)
          = Some (StartTag ''span'' [SPOILER_CLASS] # map Character m @ EndTag ''span'' # ts)" .
  from tokenize_plain [OF assms(1) this]
  have "tokenize (a @ spoiler_span m @ r)
          = Some (map Character a @ StartTag ''span'' [SPOILER_CLASS] # map Character m
                    @ EndTag ''span'' # ts)"
    by (simp add: spoiler_span_def)
  moreover have "characters (map Character x @ ys) = x @ characters ys" for x ys
    by (induction x) simp_all
  ultimately show ?thesis by simp
qed

lemma replace_plain_tokens:
  assumes "list_all plain_char t" and "pos \<le> li"
  shows "\<exists>ts. tokenize (replace_from m spoiler_span t li pos) = Some ts
            \<and> characters ts = drop pos t"
  using assms
proof (induction m spoiler_span t li pos rule: replace_from.induct)
  case (1 m t li pos)
  have pl: "list_all plain_char (drop k t)" "list_all plain_char (take j (drop k t))" for j k
    using "1.prems"(1) by (auto simp: list_all_iff dest: in_set_dropD in_set_takeD)
  have chars: "characters (map Character x) = x" for x by (induction x) simp_all
  show ?case
  proof (cases "exec_from m t li")
    case None
    have "tokenize (drop pos t @ []) = Some (map Character (drop pos t) @ [])"
      by (rule tokenize_plain [OF pl(1)]) simp
    with None chars show ?thesis by (subst replace_from.simps) simp
  next
    case (Some r)
    obtain i n where r: "r = (i, n)" by (cases r)
    from Some r have b: "li \<le> i" "i \<le> length t" using exec_from_bounds by blast+
    define matched where "matched = take n (drop i t)"
    define li' where "li' = (if matched = [] then i + n + 1 else i + n)"
    have le: "pos \<le> i" using "1.prems" b by simp
    have "i + length matched \<le> li'" by (simp add: li'_def matched_def)
    from "1.hyps"(1) [OF Some r [symmetric] matched_def li'_def le "1.prems"(1) this]
    obtain ts where
      ts: "tokenize (replace_from m spoiler_span t li' (i + length matched)) = Some ts"
      "characters ts = drop (i + length matched) t" by blast
    have unfold: "replace_from m spoiler_span t li pos =
            take (i - pos) (drop pos t) @ spoiler_span matched
              @ replace_from m spoiler_span t li' (i + length matched)"
      using Some r le by (subst replace_from.simps) (simp add: matched_def li'_def Let_def)
    have pm: "list_all plain_char matched" unfolding matched_def by (rule pl(2))
    from tokenize_span [OF pl(2) pm ts(1), of "i - pos" pos]
    obtain ts' where ts': "tokenize (replace_from m spoiler_span t li pos) = Some ts'"
      "characters ts' = take (i - pos) (drop pos t) @ matched @ characters ts"
      by (auto simp: unfold)
    have "take (i - pos) (drop pos t) @ matched @ drop (i + length matched) t = drop pos t"
      using take_drop_split [of n i t] take_between_drop [OF le, of t] by (simp add: matched_def)
    with ts' ts(2) show ?thesis by simp
  qed
qed

text \<open>
  A text without \<^verbatim>\<open><\<close>, \<^verbatim>\<open>&\<close>, U+0000 and CR is kept: the markup made for it is within the
  model's part of HTML, and the nodes parsed from it show the text as it was.
\<close>

lemma plain_text_kept:
  assumes "list_all plain_char t"
  shows "\<exists>frag. innerHTML_set (fst (String_replace t re spoiler_span)) = Some frag
           \<and> concat (map textContent frag) = t"
proof -
  from replace_plain_tokens [OF assms, of 0 0 "match_at re"]
  obtain ts where "tokenize (replace_from (match_at re) spoiler_span t 0 0) = Some ts"
    "characters ts = t" by auto
  then show ?thesis by (simp add: innerHTML_set_def String_replace_def build_text)
qed

lemma closed_append_Element: "closed (ns @ [Element nm cls kids])"
  by (induction ns rule: closed.induct) simp_all

lemma insert_character_closed:
  "closed ns \<Longrightarrow> insert_character c ns = ns @ [Text [c]]"
  by (induction ns rule: closed.induct) simp_all

lemma insert_character_Text:
  "insert_character c (ns @ [Text s]) = ns @ [Text (s @ [c])]"
proof (induction ns)
  case Nil
  then show ?case by simp
next
  case (Cons n ns)
  then show ?case by (cases "ns @ [Text s]") simp_all
qed

lemma build_characters_Text:
  "build stk (ns @ [Text s]) (map Character a @ ts) = build stk (ns @ [Text (s @ a)]) ts"
  by (induction a arbitrary: s) (simp_all add: insert_character_Text)

lemma build_characters:
  "closed cur \<Longrightarrow> build stk cur (map Character a @ ts) = build stk (cur @ as_text a) ts"
proof (cases a)
  case Nil
  then show ?thesis by (simp add: as_text_def)
next
  case (Cons c a')
  assume "closed cur"
  then have "build stk cur (map Character a @ ts)
               = build stk (cur @ [Text [c]]) (map Character a' @ ts)"
    using Cons by (simp add: insert_character_closed)
  also have "\<dots> = build stk (cur @ [Text ([c] @ a')]) ts" by (rule build_characters_Text)
  finally show ?thesis using Cons by (simp add: as_text_def)
qed

lemma build_span:
  "closed cur \<Longrightarrow>
     build [] cur (map Character a @ StartTag nm cls # map Character m @ EndTag nm' # ts)
       = build [] (cur @ as_text a @ [Element ''SPAN'' cls (as_text m)]) ts"
proof -
  assume c: "closed cur"
  have "build [] cur (map Character a @ StartTag nm cls # map Character m @ EndTag nm' # ts)
          = build [] (cur @ as_text a) (StartTag nm cls # map Character m @ EndTag nm' # ts)"
    using c by (rule build_characters)
  also have "\<dots> = build [(cls, cur @ as_text a)] [] (map Character m @ EndTag nm' # ts)" by simp
  also have "\<dots> = build [(cls, cur @ as_text a)] ([] @ as_text m) (EndTag nm' # ts)"
    by (rule build_characters) simp
  also have "\<dots> = build [] (cur @ as_text a @ [Element ''SPAN'' cls (as_text m)]) ts" by simp
  finally show ?thesis .
qed

lemma inert_frag_append:
  "inert_frag D (xs @ ys) = (inert_frag D xs \<and> inert_frag D ys)"
  by (induction D xs rule: inert_frag.induct) simp_all

lemma exec_from_first:
  "exec_from m t li = Some (i, n) \<Longrightarrow> li \<le> k \<Longrightarrow> k < i \<Longrightarrow> m t k = None"
proof (induction m t li rule: exec_from.induct)
  case (1 m t j)
  show ?case
  proof (cases "m t j")
    case None
    with "1.prems"(1) have f: "\<not> length t < j" and e: "exec_from m t (Suc j) = Some (i, n)"
      by (auto simp: exec_from.simps [of m t j] split: if_splits)
    show ?thesis
    proof (cases "k = j")
      case True
      with None show ?thesis by simp
    next
      case False
      with "1.prems"(2) have "Suc j \<le> k" by simp
      from "1.IH" [OF f None e this "1.prems"(3)] show ?thesis .
    qed
  next
    case (Some x)
    with "1.prems"(1) have "i = j"
      by (auto simp: exec_from.simps [of m t j] split: if_splits)
    with "1.prems"(2,3) show ?thesis by simp
  qed
qed

lemma contains_match_new:
  "contains_match (RegExp_new D) s = (\<exists>j. j \<le> length s \<and> name_matcher D s j \<noteq> None)"
  by (auto simp: contains_match_def RegExp_new_def exec_from_None_iff)

lemma word_before_piece:
  assumes "0 < j" and "j \<le> i - pos" and "i \<le> length t"
  shows "word_before (take (i - pos) (drop pos t)) j = word_before t (pos + j)"
  using assms by (auto simp: word_before_def)

lemma word_at_piece:
  assumes "j < i - pos" and "i \<le> length t"
  shows "word_at (take (i - pos) (drop pos t)) j = word_at t (pos + j)"
  using assms by (auto simp: word_at_def)

lemma ci_eq_piece:
  assumes "j + n \<le> i - pos" and "i \<le> length t"
  shows "take n (drop j (take (i - pos) (drop pos t))) = take n (drop (pos + j) t)"
proof -
  from assms(1) have "n \<le> i - (pos + j)" by simp
  then show ?thesis by (simp add: drop_take add.commute min_absorb1)
qed

lemma piece_no_match:
  assumes we: "word_edged D" and le: "pos \<le> i" "i \<le> length t"
    and none: "\<And>k. pos \<le> k \<Longrightarrow> k < i \<Longrightarrow> name_matcher D t k = None"
    and left: "pos = 0 \<or> \<not> word_at t pos"
    and right: "i = length t \<or> \<not> word_before t i"
  shows "name_matcher D (take (i - pos) (drop pos t)) j = None"
proof (rule ccontr)
  let ?p = "take (i - pos) (drop pos t)"
  assume "name_matcher D ?p j \<noteq> None"
  then obtain n where "name_matcher D ?p j = Some n" by auto
  from name_matcher_sound [OF we this] obtain e where e: "e \<in> set D"
    and occ: "whole_word_occurrence e ?p j" by blast
  from we e have w: "e \<noteq> []" "is_word_char (hd e)" "is_word_char (last e)"
    by (auto simp: word_edged_def list_all_iff)
  have len: "length ?p = i - pos" using le by simp
  from occ have fit: "j + length e \<le> i - pos"
    and ci: "ci_eq e (take (length e) (drop j ?p))"
    and nb: "\<not> word_before ?p j" and na: "\<not> word_at ?p (j + length e)"
    by (simp_all add: whole_word_occurrence_def len)
  from ci ci_eq_piece [OF fit le(2)]
  have ci': "ci_eq e (take (length e) (drop (pos + j) t))" by simp
  note ed = occurrence_edges [OF ci' w]
  from w(1) fit have jlt: "j < i - pos" by (cases e) simp_all
  have "\<not> word_before t (pos + j)"
  proof (cases "j = 0")
    case True
    with ed(2) left show ?thesis by (auto simp: word_before_def)
  next
    case False
    with nb word_before_piece [of j i pos t] jlt le(2) show ?thesis by simp
  qed
  moreover have "\<not> word_at t (pos + j + length e)"
  proof (cases "j + length e = i - pos")
    case True
    with le have eq: "pos + j + length e = i" by simp
    with ed(3) right show ?thesis by (auto simp: word_at_def)
  next
    case False
    with fit have "j + length e < i - pos" by simp
    from word_at_piece [OF this le(2)] na show ?thesis by (simp add: add.assoc)
  qed
  ultimately have "whole_word_occurrence e t (pos + j)"
    using ci' ed(1) by (simp add: whole_word_occurrence_def)
  from name_matcher_complete [OF we e this] none [of "pos + j"] jlt show False by simp
qed

lemma piece_inert:
  assumes "word_edged D" and "pos \<le> i" "i \<le> length t"
    and "\<And>k. pos \<le> k \<Longrightarrow> k < i \<Longrightarrow> name_matcher D t k = None"
    and "pos = 0 \<or> \<not> word_at t pos"
    and "i = length t \<or> \<not> word_before t i"
  shows "inert_frag D (as_text (take (i - pos) (drop pos t)))"
  using piece_no_match [OF assms] by (simp add: as_text_def contains_match_new)

lemma tokenize_span_exact:
  assumes "list_all plain_char a" and "list_all plain_char m" and "tokenize r = Some ts"
  shows "tokenize (a @ spoiler_span m @ r)
           = Some (map Character a @ StartTag ''span'' [SPOILER_CLASS] # map Character m
                     @ EndTag ''span'' # ts)"
proof -
  from tokenize_close [OF assms(3)]
  have "tokenize (''</span>'' @ r) = Some (EndTag ''span'' # ts)" .
  from tokenize_plain [OF assms(2) this]
  have "tokenize (m @ ''</span>'' @ r) = Some (map Character m @ EndTag ''span'' # ts)" .
  from tokenize_open [OF this]
  have "tokenize (spoiler_open @ m @ ''</span>'' @ r)
          = Some (StartTag ''span'' [SPOILER_CLASS] # map Character m @ EndTag ''span'' # ts)" .
  from tokenize_plain [OF assms(1) this]
  show ?thesis by (simp add: spoiler_span_def)
qed

lemma replace_inert:
  assumes "word_edged D" and "list_all plain_char t"
    and "li = pos" and "pos = 0 \<or> \<not> word_at t pos"
    and "closed cur" and "inert_frag D cur"
  shows "\<exists>ts. tokenize (replace_from (name_matcher D) spoiler_span t li pos) = Some ts
            \<and> inert_frag D (build [] cur ts)"
  using assms(2-)
proof (induction "name_matcher D" spoiler_span t li pos arbitrary: cur rule: replace_from.induct)
  case (1 t li pos)
  note we = assms(1)
  note plain = "1.prems"(1) and li = "1.prems"(2) and left = "1.prems"(3)
    and cl = "1.prems"(4) and inert = "1.prems"(5)
  have pl: "list_all plain_char (drop k t)" "list_all plain_char (take j (drop k t))" for j k
    using plain by (auto simp: list_all_iff dest: in_set_dropD in_set_takeD)
  show ?case
  proof (cases "exec_from (name_matcher D) t li")
    case None
    have tok: "tokenize (drop pos t @ []) = Some (map Character (drop pos t) @ [])"
      by (rule tokenize_plain [OF pl(1)]) simp
    have "build [] cur (map Character (drop pos t) @ []) = build [] (cur @ as_text (drop pos t)) []"
      using cl by (rule build_characters)
    then have b: "build [] cur (map Character (drop pos t)) = cur @ as_text (drop pos t)" by simp
    have "inert_frag D (as_text (drop pos t))"
    proof (cases "pos \<le> length t")
      case True
      have none: "name_matcher D t k = None" if "pos \<le> k" "k < length t" for k
        using None that li by (simp add: exec_from_None_iff)
      have "length t \<le> length t" by simp
      from piece_inert [OF we True this none left] show ?thesis by simp
    next
      case False
      then show ?thesis by (simp add: as_text_def)
    qed
    with inert b tok None show ?thesis
      by (subst replace_from.simps) (simp add: inert_frag_append)
  next
    case (Some r)
    obtain i n where r: "r = (i, n)" by (cases r)
    from Some r have ex: "exec_from (name_matcher D) t li = Some (i, n)" by simp
    from exec_from_bounds [OF ex] have b: "li \<le> i" "i \<le> length t"
      and m: "name_matcher D t i = Some n" by simp_all
    from name_matcher_sound [OF we m] obtain e where e: "e \<in> set D" "length e = n"
      and occ: "whole_word_occurrence e t i" by blast
    from we e(1) have "e \<noteq> []" by (auto simp: word_edged_def list_all_iff)
    with e(2) have npos: "0 < n" by (cases e) auto
    from occ e(2) have fit: "i + n \<le> length t" and nb: "\<not> word_before t i"
      and na: "\<not> word_at t (i + n)" by (simp_all add: whole_word_occurrence_def)
    define matched where "matched = take n (drop i t)"
    define li' where "li' = (if matched = [] then i + n + 1 else i + n)"
    have lm: "length matched = n" using fit by (simp add: matched_def)
    with npos have ne: "matched \<noteq> []" by auto
    have le: "pos \<le> i" using li b by simp
    let ?a = "take (i - pos) (drop pos t)"
    let ?cur = "cur @ as_text ?a @ [Element ''SPAN'' [SPOILER_CLASS] (as_text matched)]"
    have none: "name_matcher D t k = None" if "pos \<le> k" "k < i" for k
      using exec_from_first [OF ex] that li by simp
    have "inert_frag D (as_text ?a)"
      by (rule piece_inert [OF we le b(2) none left]) (simp_all add: nb)
    then have p4: "inert_frag D ?cur"
      using inert by (simp add: inert_frag_append as_text_def)
    have p3: "closed ?cur" using closed_append_Element [of "cur @ as_text ?a"] by simp
    have p1: "li' = i + length matched" using ne lm by (simp add: li'_def)
    have p2: "i + length matched = 0 \<or> \<not> word_at t (i + length matched)"
      using na lm by simp
    from "1.hyps"(1) [OF Some r [symmetric] matched_def li'_def le plain p1 p2 p3 p4]
    obtain ts where
      ts: "tokenize (replace_from (name_matcher D) spoiler_span t li' (i + length matched)) = Some ts"
      "inert_frag D (build [] ?cur ts)" by blast
    have unfold: "replace_from (name_matcher D) spoiler_span t li pos =
            ?a @ spoiler_span matched
              @ replace_from (name_matcher D) spoiler_span t li' (i + length matched)"
      using Some r le by (subst replace_from.simps) (simp add: matched_def li'_def Let_def)
    have pm: "list_all plain_char matched" unfolding matched_def by (rule pl(2))
    from tokenize_span_exact [OF pl(2) pm ts(1), of "i - pos" pos]
    have tok: "tokenize (replace_from (name_matcher D) spoiler_span t li pos)
                 = Some (map Character ?a @ StartTag ''span'' [SPOILER_CLASS]
                           # map Character matched @ EndTag ''span'' # ts)"
      by (simp add: unfold)
    from build_span [OF cl, of ?a "''span''" "[SPOILER_CLASS]" matched "''span''" ts] ts(2) tok
    show ?thesis by simp
  qed
qed

lemma inert_frag_rejected:
  assumes "match_at re = name_matcher D" and "inert_frag D frag"
    and "n \<in> set (text_nodes_in p nm cls i frag)"
  shows "fst (acceptNode re n) = False"
  using assms(2,3)
proof (induction frag arbitrary: i)
  case Nil
  then show ?case by simp
next
  case (Cons x frag)
  show ?case
  proof (cases x)
    case (Text s)
    have "\<not> contains_match re s" if "\<not> contains_match (RegExp_new D) s"
      using that assms(1) by (simp add: contains_match_def RegExp_new_def)
    with Cons Text show ?thesis by (auto simp: acceptNode_rejects_no_match)
  next
    case (Element nm' cls' kids)
    have kids: "parent_classList m = cls'"
      if "list_all is_Text kids" "m \<in> set (text_nodes_in q nm' cls' j kids)" for m q j
      using that
    proof (induction kids arbitrary: j)
      case Nil
      then show ?case by simp
    next
      case (Cons k kids)
      then show ?case by (cases k) auto
    qed
    from Cons.prems Element
    consider "n \<in> set (text_nodes_in (p @ [i]) nm' cls' 0 kids)"
      | "n \<in> set (text_nodes_in p nm cls (Suc i) frag)" by auto
    then show ?thesis
    proof cases
      case 1
      with kids Cons.prems(1) Element have "SPOILER_CLASS \<in> set (parent_classList n)" by auto
      then show ?thesis by (simp add: acceptNode_rejects_spoiler)
    next
      case 2
      with Cons.IH Cons.prems(1) Element show ?thesis by simp
    qed
  qed
qed

text \<open>
  For a name list of non-empty names that begin and end with a word character and a
  text without \<^verbatim>\<open><\<close>, \<^verbatim>\<open>&\<close>, U+0000 and CR, the filter accepts none of the text nodes
  that take the place of the text node, under whatever parent they stand: the text
  between two matches has no match of its own, and the matched text stands in an
  element with the spoiler class.
\<close>

lemma replaced_text_is_not_accepted_again:
  assumes "word_edged D" and "list_all plain_char t" and "match_at re = name_matcher D"
  shows "\<exists>frag. innerHTML_set (fst (String_replace t re spoiler_span)) = Some frag
           \<and> (\<forall>n\<in>set (text_nodes_in p nm cls i frag). fst (acceptNode re n) = False)"
proof -
  from replace_inert [OF assms(1,2), of 0 0 "[]"]
  obtain ts where ts: "tokenize (replace_from (name_matcher D) spoiler_span t 0 0) = Some ts"
    "inert_frag D (build [] [] ts)" by auto
  from inert_frag_rejected [OF assms(3) ts(2)] ts(1) assms(3)
  show ?thesis by (simp add: innerHTML_set_def String_replace_def)
qed

text \<open>
  Claim C2. The claim says that in the nodes that replace a text node every part of the
  text outside the matches is kept as it was, also for a text with \<^verbatim>\<open><\<close> or \<^verbatim>\<open>&\<close> in it.
  The script writes the text of the node into the markup as it is and has the HTML parser
  read it: in a paragraph that shows the text \<^verbatim>\<open>Tom &amp; Alice\<close>, next to the wrapped
  name the five characters \<^verbatim>\<open>&amp;\<close> have become the one character \<^verbatim>\<open>&\<close>. A text
  without such characters is kept (\<open>plain_text_kept\<close>).
\<close>

theorem markup_in_text_is_parsed:
  "body (run [FetchOk ''Alice'']
           (script_start (Element ''BODY'' [] [Element ''P'' [] [Text ''Tom &amp; Alice'']])))
   = Some (Element ''BODY'' []
       [Element ''P'' []
         [Text ''Tom & '', Element ''SPAN'' [''gemini-spoiler-censor''] [Text ''Alice'']]])"
  by code_simp

text \<open>
  Claim C3. The claim says that a second pass over the same content wraps nothing more.
  The filter does reject a text node whose parent carries the spoiler class
  (\<open>acceptNode_rejects_spoiler\<close>), and for names that begin and end with a word character
  and a text without markup characters it accepts no text node that a replacement has
  made (\<open>replaced_text_is_not_accepted_again\<close>). And yet a second pass changes the document
  again:

  \<^item> the loop removes the very node the tree walker stands on, so the walker finds no next
    node and a pass ends behind the first text node it replaces
    (\<open>censorNames_replaces_at_most_one\<close>); of two paragraphs that each read \<^verbatim>\<open>Alice\<close> the
    first pass wraps the first, the second pass the second;

  \<^item> with the empty name that a blank line of the name list leaves in the list (claim C6),
    the pattern matches the empty string at both ends of every word, so the text node
    \<^verbatim>\<open>Bob\<close> is replaced by itself between two empty spoiler elements, and is replaced
    again, with two more of them, by every later pass.
\<close>

theorem second_pass_wraps_more:
  "body (run [FetchOk ''Alice'']
           (script_start (Element ''BODY'' []
              [Element ''P'' [] [Text ''Alice''], Element ''P'' [] [Text ''Alice'']])))
   = Some (Element ''BODY'' []
       [Element ''P'' [] [Element ''SPAN'' [''gemini-spoiler-censor''] [Text ''Alice'']],
        Element ''P'' [] [Text ''Alice'']])
   \<and> body (censorNames (run [FetchOk ''Alice'']
           (script_start (Element ''BODY'' []
              [Element ''P'' [] [Text ''Alice''], Element ''P'' [] [Text ''Alice'']]))))
   = Some (Element ''BODY'' []
       [Element ''P'' [] [Element ''SPAN'' [''gemini-spoiler-censor''] [Text ''Alice'']],
        Element ''P'' [] [Element ''SPAN'' [''gemini-spoiler-censor''] [Text ''Alice'']]])
   \<and> body (run [FetchOk ''Alice\<newline>   '']
           (script_start (Element ''BODY'' [] [Element ''P'' [] [Text ''Bob'']])))
   = Some (Element ''BODY'' []
       [Element ''P'' []
         [Element ''SPAN'' [''gemini-spoiler-censor''] [], Text ''Bob'',
          Element ''SPAN'' [''gemini-spoiler-censor''] []]])
   \<and> body (censorNames (run [FetchOk ''Alice\<newline>   '']
           (script_start (Element ''BODY'' [] [Element ''P'' [] [Text ''Bob'']]))))
   = Some (Element ''BODY'' []
       [Element ''P'' []
         [Element ''SPAN'' [''gemini-spoiler-censor''] [],
          Element ''SPAN'' [''gemini-spoiler-censor''] [], Text ''Bob'',
          Element ''SPAN'' [''gemini-spoiler-censor''] [],
          Element ''SPAN'' [''gemini-spoiler-censor''] []]])"
  by code_simp

text \<open>
  Claim C5. If no text node below the body contains a match, a pass leaves the body as
  it is and replaces no node.
\<close>

theorem censor_no_match_no_change:
  assumes "body st = Some root" and "nameRegex st = Some re"
    and "\<forall>n\<in>set (text_nodes root). \<not> contains_match re (nodeValue n)"
  shows "body (censorNames st) = Some root \<and> replaced (censorNames st) = replaced st"
proof -
  from censor_loop_no_match [OF assms(3), of 0]
  obtain re' where "censor_loop re AtRoot root 0 = (Some root, 0, re')" by blast
  with assms(1,2) show ?thesis by (simp add: censorNames_def Let_def)
qed

theorem censor_no_match_no_change_witness:
  "body (censorNames
      ((fresh_page (Element ''BODY'' [] [Element ''P'' [] [Text ''Anderson'']]))
         \<lparr>nameRegex := Some (RegExp_new [''Anders''])\<rparr>))
     = Some (Element ''BODY'' [] [Element ''P'' [] [Text ''Anderson'']])
   \<and> replaced (censorNames
      ((fresh_page (Element ''BODY'' [] [Element ''P'' [] [Text ''Anderson'']]))
         \<lparr>nameRegex := Some (RegExp_new [''Anders''])\<rparr>)) = 0"
proof -
  let ?root = "Element ''BODY'' [] [Element ''P'' [] [Text ''Anderson'']]"
  let ?st = "(fresh_page ?root)\<lparr>nameRegex := Some (RegExp_new [''Anders''])\<rparr>"
  have b: "body ?st = Some ?root" by (simp add: fresh_page_def)
  have r: "nameRegex ?st = Some (RegExp_new [''Anders''])" by simp
  have "\<not> contains_match (RegExp_new [''Anders'']) ''Anderson''" by code_simp
  then have n: "\<forall>n\<in>set (text_nodes ?root).
                  \<not> contains_match (RegExp_new [''Anders'']) (nodeValue n)"
    by simp
  from censor_no_match_no_change [OF b r n] show ?thesis by (simp add: fresh_page_def)
qed

text \<open>
  Claim C7. While the matcher is unset or the flag is off, a call of \<^verbatim>\<open>censorNames\<close>
  changes nothing but the record of the call, and neither a run of the timers nor a
  notification of the observers changes the body. The matcher stays unset when the
  fetch fails and when the name list has no line that is not empty.
\<close>

theorem censor_inert:
  assumes "nameRegex st = None \<or> \<not> isEnabled st"
  shows "censorNames st = st\<lparr>pass_log := pass_log st @ [now st]\<rparr>
       \<and> body (step (Tick t) st) = body st \<and> replaced (step (Tick t) st) = replaced st
       \<and> body (step Mutations st) = body st \<and> replaced (step Mutations st) = replaced st
       \<and> nameRegex (step FetchFailed st) = nameRegex st
       \<and> (load_names names = [] \<longrightarrow> nameRegex (step (FetchOk names) st) = nameRegex st)"
proof -
  let ?s = "st\<lparr>now := t, timeouts := filter (\<lambda>(h, due). \<not> due \<le> t) (timeouts st)\<rparr>"
  from assms have "nameRegex ?s = None \<or> \<not> isEnabled ?s" by simp
  from fold_censorNames_inert [OF this, of "filter (\<lambda>(h, due). due \<le> t) (timeouts st)"]
  have "body (run_timers t st) = body st \<and> replaced (run_timers t st) = replaced st"
    by (simp add: run_timers_def)
  moreover have "load_names names = [] \<longrightarrow> nameRegex (step (FetchOk names) st) = nameRegex st"
    by (simp add: names_loaded_def task_def after_task_def)
  ultimately show ?thesis
    using censorNames_inert [OF assms] funpow_mutation_callback_body [of "observers st" st]
    by simp
qed

theorem censor_inert_witness:
  "censorNames (script_start (Element ''BODY'' [] [Text ''Alice'']))
     = (script_start (Element ''BODY'' [] [Text ''Alice'']))\<lparr>pass_log := [0]\<rparr>
   \<and> body (step (Tick 300) (script_start (Element ''BODY'' [] [Text ''Alice''])))
     = Some (Element ''BODY'' [] [Text ''Alice''])"
proof -
  let ?st = "script_start (Element ''BODY'' [] [Text ''Alice''])"
  have f: "?st = (fresh_page (Element ''BODY'' [] [Text ''Alice'']))
                   \<lparr>style_injected := True, click_listeners := 1, fetching := 1\<rparr>"
    by (simp add: script_start_def initialize_def Let_def addRevealClickListener_def
        injectSpoilerStyles_def fresh_page_def)
  have h: "nameRegex ?st = None \<or> \<not> isEnabled ?st" by (simp add: f fresh_page_def)
  from censor_inert [OF h, of 300] show ?thesis by (simp add: f fresh_page_def)
qed

text \<open>
  Claim C8. A change of the flag to true sets the flag and runs \<^verbatim>\<open>censorNames\<close> once, at
  once: the listener leaves the page as that one call leaves it, and asks for no reload.
  A change to false clears the flag and asks for one reload, and does nothing else: no
  pass runs and the body stays as it is. A change of another key does nothing.
\<close>

theorem toggle_enabled_flag:
  "(newValue c \<longrightarrow>
      onChanged (Some c) st = censorNames (st\<lparr>isEnabled := True\<rparr>)
      \<and> pass_log (onChanged (Some c) st) = pass_log st @ [now st]
      \<and> reloads (onChanged (Some c) st) = reloads st
      \<and> isEnabled (onChanged (Some c) st))
   \<and> (\<not> newValue c \<longrightarrow>
      onChanged (Some c) st = st\<lparr>isEnabled := False, reloads := Suc (reloads st)\<rparr>
      \<and> reloads (onChanged (Some c) st) = Suc (reloads st)
      \<and> pass_log (onChanged (Some c) st) = pass_log st
      \<and> body (onChanged (Some c) st) = body st
      \<and> \<not> isEnabled (onChanged (Some c) st))
   \<and> onChanged None st = st"
  by (simp add: onChanged_def Let_def censorNames_frame)

theorem toggle_enabled_flag_witness:
  "body (onChanged (Some \<lparr>newValue = True\<rparr>)
      ((fresh_page (Element ''BODY'' [] [Text ''Alice'']))
         \<lparr>isEnabled := False, nameRegex := Some (RegExp_new [''Alice'']), now := 7\<rparr>))
     = Some (Element ''BODY'' [] [Element ''SPAN'' [''gemini-spoiler-censor''] [Text ''Alice'']])
   \<and> pass_log (onChanged (Some \<lparr>newValue = True\<rparr>)
      ((fresh_page (Element ''BODY'' [] [Text ''Alice'']))
         \<lparr>isEnabled := False, nameRegex := Some (RegExp_new [''Alice'']), now := 7\<rparr>)) = [7]
   \<and> reloads (onChanged (Some \<lparr>newValue = True\<rparr>)
      ((fresh_page (Element ''BODY'' [] [Text ''Alice'']))
         \<lparr>isEnabled := False, nameRegex := Some (RegExp_new [''Alice'']), now := 7\<rparr>)) = 0
   \<and> onChanged (Some \<lparr>newValue = False\<rparr>) (fresh_page (Element ''BODY'' [] [Text ''Alice'']))
     = (fresh_page (Element ''BODY'' [] [Text ''Alice'']))\<lparr>isEnabled := False, reloads := 1\<rparr>"
proof -
  let ?st = "(fresh_page (Element ''BODY'' [] [Text ''Alice'']))
               \<lparr>isEnabled := False, nameRegex := Some (RegExp_new [''Alice'']), now := 7\<rparr>"
  have b: "body (censorNames (?st\<lparr>isEnabled := True\<rparr>))
             = Some (Element ''BODY'' [] [Element ''SPAN'' [''gemini-spoiler-censor''] [Text ''Alice'']])"
    by code_simp
  from toggle_enabled_flag [of "\<lparr>newValue = True\<rparr>" ?st]
    toggle_enabled_flag [of "\<lparr>newValue = False\<rparr>"
      "fresh_page (Element ''BODY'' [] [Text ''Alice''])"] b
  show ?thesis by (simp add: fresh_page_def censorNames_frame)
qed


section \<open>The debounced observer\<close>

lemma rearmed_fields [simp]:
  "isEnabled (rearmed st t h) = isEnabled st"
  "observers (rearmed st t h) = observers st"
  "nameRegex (rearmed st t h) = nameRegex st"
  "body (rearmed st t h) = body st"
  "replaced (rearmed st t h) = replaced st"
  "pass_log (rearmed st t h) = pass_log st"
  "now (rearmed st t h) = t"
  "next_handle (rearmed st t h) = Suc h"
  "timeouts (rearmed st t h) = [(h, t + 300)]"
  "timer (rearmed st t h) = Some h"
  by (simp_all add: rearmed_def)

lemma rearmed_rearmed [simp]: "rearmed (rearmed st t h) u k = rearmed st u k"
  by (simp add: rearmed_def)

lemma rearmed_now [simp]: "rearmed (st\<lparr>now := u\<rparr>) t h = rearmed st t h"
  by (simp add: rearmed_def)

lemma one_pending_rearmed: "one_pending (rearmed st t h) (t + 300)"
  by (simp add: one_pending_def)

lemma mutation_callback_exact:
  assumes "isEnabled st" and "timeouts st = [] \<or> (\<exists>d. one_pending st d)"
  shows "mutation_callback st = rearmed st (now st) (next_handle st)"
  using assms
  by (auto simp: mutation_callback_def debouncedCensorNames_def setTimeout_def clearTimeout_def
      one_pending_def rearmed_def)

lemma funpow_mutation_callback_exact:
  assumes "isEnabled st" and "timeouts st = [] \<or> (\<exists>d. one_pending st d)" and "0 < k"
  shows "(mutation_callback ^^ k) st = rearmed st (now st) (next_handle st + k - 1)"
  using assms(3)
proof (induction k)
  case 0
  then show ?case by simp
next
  case (Suc k)
  show ?case
  proof (cases k)
    case 0
    with mutation_callback_exact [OF assms(1,2)] show ?thesis by simp
  next
    case (Suc j)
    let ?s = "rearmed st (now st) (next_handle st + k - 1)"
    from Suc Suc.IH have ih: "(mutation_callback ^^ k) st = ?s" by simp
    have e: "isEnabled ?s" using assms(1) by simp
    have p: "timeouts ?s = [] \<or> (\<exists>d. one_pending ?s d)"
      using one_pending_rearmed [of st "now st" "next_handle st + k - 1"] by blast
    from mutation_callback_exact [OF e p] ih Suc show ?thesis by simp
  qed
qed

lemma funpow_mutation_callback_rearms:
  assumes "isEnabled st" and "timeouts st = [] \<or> (\<exists>d. one_pending st d)" and "0 < k"
  shows "one_pending ((mutation_callback ^^ k) st) (now st + 300)"
  using funpow_mutation_callback_exact [OF assms] one_pending_rearmed by simp

lemma funpow_mutation_callback_frame:
  "observers ((mutation_callback ^^ k) st) = observers st
   \<and> fetching ((mutation_callback ^^ k) st) = fetching st"
  by (induction k)
     (simp_all add: mutation_callback_def debouncedCensorNames_def setTimeout_def clearTimeout_def)

lemma run_timers_early:
  assumes "timeouts st = [] \<or> (\<exists>d. one_pending st d \<and> t < d)"
  shows "run_timers t st = st\<lparr>now := t\<rparr>"
  using assms by (auto simp: run_timers_def one_pending_def)

lemma run_timers_due:
  assumes "one_pending st d" and "d \<le> t"
  shows "run_timers t st = task censorNames (st\<lparr>now := t, timeouts := []\<rparr>)"
  using assms by (auto simp: run_timers_def one_pending_def)

lemma notify_exact:
  assumes "isEnabled st" and "0 < observers st"
    and "timeouts st = [] \<or> (\<exists>d. one_pending st d \<and> t < d)"
  shows "step Mutations (step (Tick t) st) = rearmed st t (next_handle st + observers st - 1)"
proof -
  let ?s = "st\<lparr>now := t\<rparr>"
  have tick: "step (Tick t) st = ?s" using run_timers_early [OF assms(3)] by simp
  have e: "isEnabled ?s" using assms(1) by simp
  have p: "timeouts ?s = [] \<or> (\<exists>d. one_pending ?s d)"
    using assms(3) by (auto simp: one_pending_def)
  have k: "0 < observers ?s" using assms(2) by simp
  from funpow_mutation_callback_exact [OF e p k] tick show ?thesis by simp
qed

lemma run_append: "run (xs @ ys) st = run ys (run xs st)"
  by (simp add: run_def)

lemma burst_Cons: "run (burst (t # ts)) st = run (burst ts) (step Mutations (step (Tick t) st))"
  by (simp add: burst_def run_def)

lemma burst_exact:
  assumes "ts \<noteq> []" and "within_window ts" and "isEnabled st" and "0 < observers st"
    and "timeouts st = [] \<or> (\<exists>d. one_pending st d \<and> hd ts < d)"
  shows "\<exists>h. run (burst ts) st = rearmed st (last ts) h"
  using assms
proof (induction ts arbitrary: st rule: within_window.induct)
  case 1
  then show ?case by simp
next
  case (2 t)
  from notify_exact [OF "2.prems"(3,4), of t] "2.prems"(5)
  have "run (burst [t]) st = rearmed st t (next_handle st + observers st - 1)"
    by (simp add: burst_def run_def)
  then have "run (burst [t]) st = rearmed st (last [t]) (next_handle st + observers st - 1)"
    by simp
  then show ?case by (rule exI)
next
  case (3 t u ts)
  let ?s = "rearmed st t (next_handle st + observers st - 1)"
  from notify_exact [OF "3.prems"(3,4), of t] "3.prems"(5)
  have n: "step Mutations (step (Tick t) st) = ?s" by simp
  from "3.prems"(2) have w: "within_window (u # ts)" and lt: "u < t + 300" by simp_all
  have e: "isEnabled ?s" using "3.prems"(3) by simp
  have o: "0 < observers ?s" using "3.prems"(4) by simp
  from one_pending_rearmed [of st t "next_handle st + observers st - 1"] lt
  have "timeouts ?s = [] \<or> (\<exists>d. one_pending ?s d \<and> hd (u # ts) < d)" by auto
  from "3.IH" [OF _ w e o this]
  obtain h where "run (burst (u # ts)) ?s = rearmed ?s (last (u # ts)) h" by blast
  with n have "run (burst (t # u # ts)) st = rearmed st (last (t # u # ts)) h"
    by (simp add: burst_Cons [of t])
  then show ?case by (rule exI)
qed

lemma ticks_early:
  assumes "timeouts st = [] \<or> (\<exists>d. one_pending st d \<and> (\<forall>T\<in>set Ts. T < d))"
  shows "run (map Tick Ts) st = st\<lparr>now := last (now st # Ts)\<rparr>"
  using assms
proof (induction Ts arbitrary: st)
  case Nil
  then show ?case by (simp add: run_def)
next
  case (Cons T Ts)
  let ?s = "st\<lparr>now := T\<rparr>"
  from Cons.prems have "timeouts st = [] \<or> (\<exists>d. one_pending st d \<and> T < d)" by auto
  then have s: "step (Tick T) st = ?s" by (simp add: run_timers_early)
  have r: "run (map Tick (T # Ts)) st = run (map Tick Ts) (step (Tick T) st)"
    by (simp add: run_def)
  from Cons.prems
  have "timeouts ?s = [] \<or> (\<exists>d. one_pending ?s d \<and> (\<forall>T\<in>set Ts. T < d))"
    by (auto simp: one_pending_def)
  from Cons.IH [OF this] s r show ?case by simp
qed

lemma censorNames_replaced_cong:
  assumes "isEnabled a = isEnabled b" and "nameRegex a = nameRegex b" and "body a = body b"
    and "replaced a = replaced b"
  shows "replaced (censorNames a) = replaced (censorNames b)"
  using assms by (simp add: censorNames_def Let_def split: option.splits prod.splits)

lemma after_task_pass_log: "pass_log (after_task before st) = pass_log st"
proof -
  have "pass_log ((mutation_callback ^^ k) s) = pass_log s" for k s
    by (induction k)
       (simp_all add: mutation_callback_def debouncedCensorNames_def setTimeout_def
          clearTimeout_def)
  then show ?thesis by (simp add: after_task_def)
qed

text \<open>
  Claim C9. While the flag is on and an observer is set, a burst of notifications, each
  less than 300 ms after the one before, runs no pass and leaves the page as it was but
  for the clock and the one timeout that is set, due 300 ms after the last notification:
  each notification has cleared the timeout of the one before. While the clock goes on
  through times \<open>Ts\<close> before that, nothing but the clock changes. At the first time \<open>T\<close>
  that is at least 300 ms after the last notification the timeout is taken off and
  \<^verbatim>\<open>censorNames\<close> runs, once, as a task. If a pass replaces nothing on this page, that is
  all: the page is as that one call leaves it, no timeout is set, and as the clock goes
  on through the times \<open>Us\<close> nothing but the clock changes. If the pass replaces a text
  node, the observers are notified of that change, a notification that is not one of the
  burst: the page is as the one call leaves it, with one timeout set again, due 300 ms
  after the pass.
\<close>

theorem debounce_collapses_burst:
  assumes "isEnabled st" and "0 < observers st" and "timeouts st = []"
    and "ts \<noteq> []" and "within_window ts"
    and "\<forall>T\<in>set Ts. T < last ts + 300" and "last ts + 300 \<le> T"
  shows "\<exists>h. run (burst ts) st = rearmed st (last ts) h
       \<and> map snd (timeouts (run (burst ts) st)) = [last ts + 300]
       \<and> run (burst ts @ map Tick Ts) st = (rearmed st (last ts) h)\<lparr>now := last (last ts # Ts)\<rparr>
       \<and> run (burst ts @ map Tick Ts @ [Tick T]) st
           = task censorNames ((rearmed st (last ts) h)\<lparr>now := T, timeouts := []\<rparr>)
       \<and> pass_log (run (burst ts @ map Tick Ts @ [Tick T]) st) = pass_log st @ [T]
       \<and> (replaced (censorNames st) = replaced st \<longrightarrow>
            run (burst ts @ map Tick Ts @ [Tick T] @ map Tick Us) st
              = (censorNames ((rearmed st (last ts) h)\<lparr>now := T, timeouts := []\<rparr>))
                  \<lparr>now := last (T # Us)\<rparr>)
       \<and> (replaced (censorNames st) \<noteq> replaced st \<longrightarrow>
            run (burst ts @ map Tick Ts @ [Tick T]) st
              = rearmed (censorNames ((rearmed st (last ts) h)\<lparr>now := T, timeouts := []\<rparr>))
                  T (h + observers st))"
proof -
  from assms(3) have "timeouts st = [] \<or> (\<exists>d. one_pending st d \<and> hd ts < d)" by simp
  from burst_exact [OF assms(4,5,1,2) this]
  obtain h where b: "run (burst ts) st = rearmed st (last ts) h" by blast
  let ?b = "rearmed st (last ts) h"
  let ?e = "?b\<lparr>now := last (last ts # Ts)\<rparr>"
  let ?s = "?b\<lparr>now := T, timeouts := []\<rparr>"
  have pb: "one_pending ?b (last ts + 300)" by (rule one_pending_rearmed)
  with assms(6)
  have "timeouts ?b = [] \<or> (\<exists>d. one_pending ?b d \<and> (\<forall>T\<in>set Ts. T < d))" by blast
  from ticks_early [OF this] have e: "run (map Tick Ts) ?b = ?e" by simp
  have pe: "one_pending ?e (last ts + 300)" by (simp add: one_pending_def)
  from run_timers_due [OF pe assms(7)]
  have d: "step (Tick T) ?e = task censorNames ?s" by simp
  have l: "pass_log (task censorNames ?s) = pass_log st @ [T]"
    by (simp add: task_def after_task_pass_log censorNames_frame)
  have c: "replaced (censorNames ?s) = replaced (censorNames st)"
    by (rule censorNames_replaced_cong) simp_all
  have quiet: "run (map Tick Us) (task censorNames ?s) = (censorNames ?s)\<lparr>now := last (T # Us)\<rparr>"
    if "replaced (censorNames st) = replaced st"
  proof -
    from that c have t: "task censorNames ?s = censorNames ?s"
      by (simp add: task_def after_task_def)
    have "timeouts (censorNames ?s) = [] \<or>
        (\<exists>d. one_pending (censorNames ?s) d \<and> (\<forall>T\<in>set Us. T < d))"
      by (simp add: censorNames_frame)
    from ticks_early [OF this] t show ?thesis by (simp add: censorNames_frame)
  qed
  have again: "task censorNames ?s = rearmed (censorNames ?s) T (h + observers st)"
    if "replaced (censorNames st) \<noteq> replaced st"
  proof -
    from that c
    have t: "task censorNames ?s = (mutation_callback ^^ observers st) (censorNames ?s)"
      by (simp add: task_def after_task_def)
    have e: "isEnabled (censorNames ?s)" using assms(1) by (simp add: censorNames_frame)
    have p: "timeouts (censorNames ?s) = [] \<or> (\<exists>d. one_pending (censorNames ?s) d)"
      by (simp add: censorNames_frame)
    from funpow_mutation_callback_exact [OF e p assms(2)] t assms(2)
    show ?thesis by (simp add: censorNames_frame)
  qed
  have "run (burst ts) st = ?b
      \<and> map snd (timeouts (run (burst ts) st)) = [last ts + 300]
      \<and> run (burst ts @ map Tick Ts) st = ?e
      \<and> run (burst ts @ map Tick Ts @ [Tick T]) st = task censorNames ?s
      \<and> pass_log (run (burst ts @ map Tick Ts @ [Tick T]) st) = pass_log st @ [T]
      \<and> (replaced (censorNames st) = replaced st \<longrightarrow>
           run (burst ts @ map Tick Ts @ [Tick T] @ map Tick Us) st
             = (censorNames ?s)\<lparr>now := last (T # Us)\<rparr>)
      \<and> (replaced (censorNames st) \<noteq> replaced st \<longrightarrow>
           run (burst ts @ map Tick Ts @ [Tick T]) st
             = rearmed (censorNames ?s) T (h + observers st))"
    using b e d l quiet again by (simp add: run_append run_def)
  then show ?thesis by (rule exI)
qed

text \<open>
  The scenario of the specification, five notifications 50 ms apart, on a page whose text
  has no name of the list, and on a page to which the name \<^verbatim>\<open>Alice\<close> has been added.
\<close>

theorem debounce_collapses_burst_witness:
  "body (run (burst [0, 50, 100, 150, 200] @ map Tick [300, 499] @ [Tick 500] @ map Tick [900, 1300])
      (run [FetchOk ''Alice''] (script_start (Element ''BODY'' [] [Text ''Bob'']))))
     = Some (Element ''BODY'' [] [Text ''Bob''])
   \<and> pass_log (run (burst [0, 50, 100, 150, 200] @ map Tick [300, 499] @ [Tick 500] @ map Tick [900, 1300])
      (run [FetchOk ''Alice''] (script_start (Element ''BODY'' [] [Text ''Bob''])))) = [0, 500]
   \<and> timeouts (run (burst [0, 50, 100, 150, 200] @ map Tick [300, 499] @ [Tick 500] @ map Tick [900, 1300])
      (run [FetchOk ''Alice''] (script_start (Element ''BODY'' [] [Text ''Bob''])))) = []
   \<and> body (run (burst [0, 50, 100, 150, 200] @ map Tick [300, 499] @ [Tick 500])
      ((run [FetchOk ''Alice''] (script_start (Element ''BODY'' [] [Text ''Bob''])))
         \<lparr>body := Some (Element ''BODY'' [] [Text ''Bob'', Element ''P'' [] [Text ''Alice'']])\<rparr>))
     = Some (Element ''BODY'' []
         [Text ''Bob'', Element ''P'' [] [Element ''SPAN'' [''gemini-spoiler-censor''] [Text ''Alice'']]])
   \<and> map snd (timeouts (run (burst [0, 50, 100, 150, 200] @ map Tick [300, 499] @ [Tick 500])
      ((run [FetchOk ''Alice''] (script_start (Element ''BODY'' [] [Text ''Bob''])))
         \<lparr>body := Some (Element ''BODY'' [] [Text ''Bob'', Element ''P'' [] [Text ''Alice'']])\<rparr>)))
     = [800]"
proof -
  let ?st = "run [FetchOk ''Alice''] (script_start (Element ''BODY'' [] [Text ''Bob'']))"
  let ?st2 = "?st\<lparr>body := Some (Element ''BODY'' [] [Text ''Bob'', Element ''P'' [] [Text ''Alice'']])\<rparr>"
  have e: "isEnabled ?st" by code_simp
  have o: "0 < observers ?st" by code_simp
  have t: "timeouts ?st = []" by code_simp
  have l: "pass_log ?st = [0]" by code_simp
  have q: "replaced (censorNames ?st) = replaced ?st" by code_simp
  have b: "body (censorNames ?st) = Some (Element ''BODY'' [] [Text ''Bob''])" by code_simp
  have e2: "isEnabled ?st2" using e by simp
  have o2: "0 < observers ?st2" using o by simp
  have t2: "timeouts ?st2 = []" using t by simp
  have q2: "replaced (censorNames ?st2) \<noteq> replaced ?st2" by code_simp
  have b2: "body (censorNames ?st2) = Some (Element ''BODY'' []
      [Text ''Bob'', Element ''P'' [] [Element ''SPAN'' [''gemini-spoiler-censor''] [Text ''Alice'']]])"
    by code_simp
  have n: "[0, 50, 100, 150, 200] \<noteq> ([] :: nat list)" by simp
  have w: "within_window [0, 50, 100, 150, 200]" by simp
  have x: "\<forall>T\<in>set [300, 499]. T < last [0, 50, 100, 150, 200] + (300 :: nat)" by simp
  have y: "last [0, 50, 100, 150, 200] + 300 \<le> (500 :: nat)" by simp
  from debounce_collapses_burst [OF e o t n w x y, of "[900, 1300]"] q
  obtain h where r:
    "run (burst [0, 50, 100, 150, 200] @ map Tick [300, 499] @ [Tick 500] @ map Tick [900, 1300]) ?st
       = (censorNames ((rearmed ?st (last [0, 50, 100, 150, 200]) h)\<lparr>now := 500, timeouts := []\<rparr>))
           \<lparr>now := last [500, 900, 1300]\<rparr>"
    by auto
  have c: "body (censorNames ((rearmed ?st (last [0, 50, 100, 150, 200]) h)\<lparr>now := 500, timeouts := []\<rparr>))
          = body (censorNames ?st)"
    by (rule censorNames_body_cong) simp_all
  from debounce_collapses_burst [OF e2 o2 t2 n w x y] q2
  obtain k where r2:
    "run (burst [0, 50, 100, 150, 200] @ map Tick [300, 499] @ [Tick 500]) ?st2
       = rearmed (censorNames ((rearmed ?st2 (last [0, 50, 100, 150, 200]) k)\<lparr>now := 500, timeouts := []\<rparr>))
           500 (k + observers ?st2)"
    by auto
  have c2: "body (censorNames ((rearmed ?st2 (last [0, 50, 100, 150, 200]) k)\<lparr>now := 500, timeouts := []\<rparr>))
          = body (censorNames ?st2)"
    by (rule censorNames_body_cong) simp_all
  have 1: "body (run (burst [0, 50, 100, 150, 200] @ map Tick [300, 499] @ [Tick 500] @ map Tick [900, 1300]) ?st)
      = Some (Element ''BODY'' [] [Text ''Bob''])"
    using r c b by simp
  have 2: "pass_log (run (burst [0, 50, 100, 150, 200] @ map Tick [300, 499] @ [Tick 500] @ map Tick [900, 1300]) ?st)
      = [0, 500]"
    using r l by (simp add: censorNames_frame)
  have 3: "timeouts (run (burst [0, 50, 100, 150, 200] @ map Tick [300, 499] @ [Tick 500] @ map Tick [900, 1300]) ?st)
      = []"
    using r by (simp add: censorNames_frame)
  have 4: "body (run (burst [0, 50, 100, 150, 200] @ map Tick [300, 499] @ [Tick 500]) ?st2)
      = Some (Element ''BODY'' []
          [Text ''Bob'', Element ''P'' [] [Element ''SPAN'' [''gemini-spoiler-censor''] [Text ''Alice'']]])"
    using r2 c2 b2 by simp
  have 5: "map snd (timeouts (run (burst [0, 50, 100, 150, 200] @ map Tick [300, 499] @ [Tick 500]) ?st2))
      = [800]"
    using r2 by simp
  from 1 2 3 4 5 show ?thesis by blast
qed


section \<open>The observers of a page\<close>

lemma after_task_frame:
  "observers (after_task before st) = observers st
   \<and> fetching (after_task before st) = fetching st"
  by (simp add: after_task_def funpow_mutation_callback_frame)

lemma run_timers_frame:
  "observers (run_timers t st) = observers st \<and> fetching (run_timers t st) = fetching st"
proof -
  have "observers (fold (\<lambda>_. task censorNames) xs s) = observers s
      \<and> fetching (fold (\<lambda>_. task censorNames) xs s) = fetching s"
    for xs :: "(nat \<times> nat) list" and s
    by (induction xs arbitrary: s) (simp_all add: task_def after_task_frame censorNames_frame)
  then show ?thesis by (simp add: run_timers_def)
qed

lemma step_registrations:
  "observers (step ev st) + fetching (step ev st) \<le> observers st + fetching st"
proof (cases ev)
  case (Tick t)
  then show ?thesis by (simp add: run_timers_frame)
next
  case Mutations
  then show ?thesis by (simp add: funpow_mutation_callback_frame)
next
  case (FetchOk names)
  then show ?thesis
    by (simp add: task_def after_task_frame names_loaded_def Let_def observeDOMChanges_def
        censorNames_frame split: option.splits)
next
  case FetchFailed
  then show ?thesis by simp
next
  case (StorageChanged c)
  then show ?thesis
    by (cases c) (simp_all add: task_def after_task_frame onChanged_def Let_def censorNames_frame)
qed

lemma run_registrations:
  "observers (run evs st) + fetching (run evs st) \<le> observers st + fetching st"
proof (induction evs arbitrary: st)
  case Nil
  then show ?case by (simp add: run_def)
next
  case (Cons ev evs)
  have "run (ev # evs) st = run evs (step ev st)" by (simp add: run_def)
  with Cons.IH [of "step ev st"] step_registrations [of ev st] show ?case by simp
qed

text \<open>
  On a page where the script has run once, with its one call of \<^verbatim>\<open>initialize\<close>, at
  most one observer is ever set, whatever happens afterwards and whatever the browser
  makes of the patterns: the handler that sets it runs once, when the one fetch ends.
\<close>

lemma one_observer_after_one_start:
  "observers (run evs ((script_start root)\<lparr>pattern_engine := engine\<rparr>)) \<le> 1"
proof -
  let ?st = "(script_start root)\<lparr>pattern_engine := engine\<rparr>"
  have "observers ?st + fetching ?st = 1"
    by (simp add: script_start_def initialize_def Let_def addRevealClickListener_def
        injectSpoilerStyles_def fresh_page_def)
  with run_registrations [of evs ?st] show ?thesis by simp
qed

text \<open>
  Claim C10. The claim is that the page has at most one observer, also when the
  initialization runs again. \<^verbatim>\<open>observeDOMChanges\<close> makes a new observer at every call and
  stores it in \<^verbatim>\<open>window.geminiCensorObserver\<close>, but nothing reads that variable: no call
  looks for an observer that is already set, and none disconnects one, where
  \<^verbatim>\<open>injectSpoilerStyles\<close> beside it does look for the style element it has added. So a
  second call of \<^verbatim>\<open>initialize\<close> on the page starts a second fetch, and when both fetches
  have ended two observers observe the body.
\<close>

theorem second_initialize_second_observer:
  "observers (run [FetchOk ''Alice'', FetchOk ''Alice'']
                (initialize (script_start (Element ''BODY'' [] [])))) = 2"
  by code_simp

end
